theory Spec2Isabelle
  imports Main "HOL-Library.Word"
begin

section \<open>Secure QR container decoder (\<^verbatim>\<open>app.py\<close>, \<^verbatim>\<open>decode_secure_qr\<close>)\<close>

text \<open>
  A shallow embedding of \<^verbatim>\<open>decode_secure_qr\<close>.  Python \<^verbatim>\<open>bytes\<close> are lists of
  8-bit words.  Python \<^verbatim>\<open>str\<close> values are lists of \<^typ>\<open>char\<close>: every string the
  decoder produces holds code points below 256 only (ISO-8859-1 text, base64 and
  hexadecimal digits), and a \<^typ>\<open>char\<close> stands for the code point of the same number.
  The result dictionary is a map from keys to values, every \<^verbatim>\<open>raise\<close> is an
  \<open>Inl\<close> of the error type.
\<close>

type_synonym byte = "8 word"

datatype error =
    ConversionError        \<comment> \<open>"Error converting QR data to bytes: ..."\<close>
  | DecompressionFailed    \<comment> \<open>"Decompression failed: ..."\<close>
  | NotEnoughDelimiters    \<comment> \<open>"Not enough delimiters found; expected 16 text fields."\<close>
  | FieldDecodeError       \<comment> \<open>"Error decoding text field: ..."\<close>
  | UnexpectedFieldCount   \<comment> \<open>"Unexpected number of text fields extracted."\<close>
  | InvalidIndicator       \<comment> \<open>"Invalid indicator value: ..."\<close>

type_synonym decoded_record = "string \<rightharpoonup> string"

subsection \<open>Python primitives used by the decoder\<close>

text \<open>
  Slicing \<^verbatim>\<open>xs[i:j]\<close> with integer bounds: a negative bound counts from the end, and
  every bound is clamped into \<open>0..len(xs)\<close>; the slice is empty when the lower bound
  is not below the upper one.  Slicing never raises.
\<close>

definition slice_index :: "nat \<Rightarrow> int \<Rightarrow> nat" where
  "slice_index n i =
     (if i < 0 then (if int n + i < 0 then 0 else nat (int n + i))
      else if int n < i then n else nat i)"

definition py_slice :: "'a list \<Rightarrow> int \<Rightarrow> int \<Rightarrow> 'a list" where
  "py_slice xs i j =
     (let lo = slice_index (length xs) i; hi = slice_index (length xs) j
      in if lo < hi then take (hi - lo) (drop lo xs) else [])"

text \<open>
  \<^verbatim>\<open>bytes.decode("ISO-8859-1")\<close>: one character per byte, the code point being the
  byte's value.  The codec accepts every byte, so the result is always \<open>Some\<close>; the
  option keeps the \<^verbatim>\<open>try\<close>/\<^verbatim>\<open>except\<close> around the call visible in the model.
\<close>

definition latin1_char :: "byte \<Rightarrow> char" where
  "latin1_char b = char_of (unat b)"

definition decode_latin1 :: "byte list \<Rightarrow> string option" where
  "decode_latin1 bs = Some (map latin1_char bs)"

text \<open>
  \<^verbatim>\<open>int(s)\<close> on a string of code points below 256.  Leading and trailing
  white space is dropped (tab, line feed, vertical tab, form feed, carriage return,
  space, and in non-ASCII strings NEL and the no-break space), then an optional sign,
  then decimal digits \<open>0\<close>..\<open>9\<close> where single underscores may stand between digits.
  Anything else is a \<^verbatim>\<open>ValueError\<close>: \<open>None\<close>.  CPython also refuses a literal of more
  than \<^verbatim>\<open>sys.get_int_max_str_digits()\<close> digits when that interpreter setting is not 0
  (the check runs for literals of more than 640 digits); the setting is the parameter
  \<open>max_str_digits\<close>.
\<close>

definition py_isspace :: "char \<Rightarrow> bool" where
  "py_isspace c = ((of_char c :: nat) \<in> {9, 10, 11, 12, 13, 32, 133, 160})"

definition py_isdigit :: "char \<Rightarrow> bool" where
  "py_isdigit c = (48 \<le> (of_char c :: nat) \<and> (of_char c :: nat) \<le> 57)"

definition digit_value :: "char \<Rightarrow> nat" where
  "digit_value c = of_char c - 48"

fun parse_digits :: "string \<Rightarrow> nat \<Rightarrow> nat \<Rightarrow> (nat \<times> nat) option" where
  "parse_digits [] acc cnt = Some (acc, cnt)"
| "parse_digits (c # cs) acc cnt =
     (if py_isdigit c then parse_digits cs (10 * acc + digit_value c) (cnt + 1)
      else if c = CHR ''_'' then
        (case cs of
           [] \<Rightarrow> None
         | d # ds \<Rightarrow>
             if py_isdigit d then parse_digits ds (10 * acc + digit_value d) (cnt + 1)
             else None)
      else None)"

definition py_strip :: "string \<Rightarrow> string" where
  "py_strip s = rev (dropWhile py_isspace (rev (dropWhile py_isspace s)))"

definition py_int :: "nat \<Rightarrow> string \<Rightarrow> int option" where
  "py_int max_str_digits s =
     (let t = py_strip s;
          (negative, body) =
            (case t of
               [] \<Rightarrow> (False, t)
             | c # cs \<Rightarrow>
                 if c = CHR ''-'' then (True, cs)
                 else if c = CHR ''+'' then (False, cs)
                 else (False, t))
      in case body of
           [] \<Rightarrow> None
         | c # cs \<Rightarrow>
             if \<not> py_isdigit c then None
             else (case parse_digits cs (digit_value c) 1 of
                     None \<Rightarrow> None
                   | Some (n, cnt) \<Rightarrow>
                       if 640 < cnt \<and> 0 < max_str_digits \<and> max_str_digits < cnt then None
                       else Some (if negative then - int n else int n)))"

text \<open>\<^verbatim>\<open>bytes.hex()\<close>: two lowercase hexadecimal digits per byte.\<close>

definition hex_digits :: string where
  "hex_digits = ''0123456789abcdef''"

definition hex_digit :: "nat \<Rightarrow> char" where
  "hex_digit n = hex_digits ! n"

definition hex_byte :: "byte \<Rightarrow> string" where
  "hex_byte b = [hex_digit (unat b div 16), hex_digit (unat b mod 16)]"

definition bytes_hex :: "byte list \<Rightarrow> string" where
  "bytes_hex bs = concat (map hex_byte bs)"

text \<open>
  \<^verbatim>\<open>base64.b64encode\<close>: the standard alphabet, three bytes to four characters, the
  last group padded with \<open>=\<close>, no line breaks.
\<close>

definition b64_alphabet :: string where
  "b64_alphabet = ''ABCDEFGHIJKLMNOPQRSTUVWXYZabcdefghijklmnopqrstuvwxyz0123456789+/''"

definition b64_char :: "nat \<Rightarrow> char" where
  "b64_char n = b64_alphabet ! n"

fun b64encode :: "byte list \<Rightarrow> string" where
  "b64encode [] = []"
| "b64encode [a] =
     [b64_char (unat a div 4), b64_char ((unat a mod 4) * 16), CHR ''='', CHR ''='']"
| "b64encode [a, b] =
     [b64_char (unat a div 4), b64_char ((unat a mod 4) * 16 + unat b div 16),
      b64_char ((unat b mod 16) * 4), CHR ''='']"
| "b64encode (a # b # c # rest) =
     [b64_char (unat a div 4), b64_char ((unat a mod 4) * 16 + unat b div 16),
      b64_char ((unat b mod 16) * 4 + unat c div 64), b64_char (unat c mod 64)]
     @ b64encode rest"

subsection \<open>The delimiter scan (lines 34 to 42)\<close>

definition delimiter :: byte where
  "delimiter = 255"

text \<open>
  The \<^verbatim>\<open>for i, b in enumerate(decompressed)\<close> loop: \<open>i\<close> is the offset of the head
  of the remaining bytes, the last argument is the list \<^verbatim>\<open>delimiter_positions\<close> so
  far.  The loop breaks as soon as the list holds 16 offsets; \<open>delimiter_positions\<close>
  below is the list after the loop.
\<close>

fun scan_delimiters :: "byte list \<Rightarrow> nat \<Rightarrow> nat list \<Rightarrow> nat list" where
  "scan_delimiters [] i positions = positions"
| "scan_delimiters (b # bs) i positions =
     (if b = delimiter then
        (let positions' = positions @ [i]
         in if length positions' = 16 then positions'
            else scan_delimiters bs (i + 1) positions')
      else scan_delimiters bs (i + 1) positions)"

definition delimiter_positions :: "byte list \<Rightarrow> nat list" where
  "delimiter_positions decompressed = scan_delimiters decompressed 0 []"

subsection \<open>The text fields (lines 44 to 62)\<close>

text \<open>
  The \<^verbatim>\<open>for pos in delimiter_positions\<close> loop: \<open>start\<close> and \<^verbatim>\<open>text_fields\<close> are the
  loop's variables.
\<close>

fun extract_text_fields ::
  "byte list \<Rightarrow> nat \<Rightarrow> nat list \<Rightarrow> string list \<Rightarrow> error + string list" where
  "extract_text_fields decompressed start [] text_fields = Inr text_fields"
| "extract_text_fields decompressed start (pos # rest) text_fields =
     (case decode_latin1 (py_slice decompressed (int start) (int pos)) of
        None \<Rightarrow> Inl FieldDecodeError
      | Some field \<Rightarrow> extract_text_fields decompressed (pos + 1) rest (text_fields @ [field]))"

definition keys :: "string list" where
  "keys = [''indicator'', ''referenceId'', ''name'', ''dob'', ''gender'',
           ''care_of'', ''district'', ''landmark'', ''house'', ''location'',
           ''pin_code'', ''post_office'', ''state'', ''street'', ''sub_district'', ''VTC'']"

subsection \<open>The tail (lines 69 to 100)\<close>

definition tail_extra :: "int \<Rightarrow> int" where
  "tail_extra indicator =
     (if indicator = 3 then 64 else if indicator \<in> {1, 2} then 32 else 0)"

definition tail_length :: "int \<Rightarrow> int" where
  "tail_length indicator = 256 + tail_extra indicator"

definition tail_start :: "byte list \<Rightarrow> int \<Rightarrow> int" where
  "tail_start decompressed indicator = int (length decompressed) - tail_length indicator"

definition photo_bytes :: "byte list \<Rightarrow> nat list \<Rightarrow> int \<Rightarrow> byte list" where
  "photo_bytes decompressed positions indicator =
     py_slice decompressed (int (last positions) + 1) (tail_start decompressed indicator)"

text \<open>The values of \<^verbatim>\<open>mobile\<close> and \<^verbatim>\<open>email\<close> before the dictionary is built; \<open>None\<close> is Python's \<^verbatim>\<open>None\<close>.\<close>

definition mobile :: "byte list \<Rightarrow> int \<Rightarrow> string option" where
  "mobile decompressed indicator =
     (let ts = tail_start decompressed indicator in
      if indicator = 3 then Some (bytes_hex (rev (py_slice decompressed ts (ts + 32))))
      else if indicator = 1 then Some (bytes_hex (rev (py_slice decompressed ts (ts + 32))))
      else None)"

definition email :: "byte list \<Rightarrow> int \<Rightarrow> string option" where
  "email decompressed indicator =
     (let ts = tail_start decompressed indicator in
      if indicator = 3 then Some (bytes_hex (rev (py_slice decompressed (ts + 32) (ts + 64))))
      else if indicator = 1 then None
      else if indicator = 2 then Some (bytes_hex (rev (py_slice decompressed ts (ts + 32))))
      else None)"

text \<open>\<^verbatim>\<open>if mobile:\<close> holds for a string that is neither \<^verbatim>\<open>None\<close> nor empty.\<close>

definition truthy :: "string option \<Rightarrow> bool" where
  "truthy v = (case v of None \<Rightarrow> False | Some s \<Rightarrow> s \<noteq> [])"

definition set_if_truthy :: "string \<Rightarrow> string option \<Rightarrow> decoded_record \<Rightarrow> decoded_record" where
  "set_if_truthy k v result = (if truthy v then result(k \<mapsto> the v) else result)"

subsection \<open>The decoder\<close>

text \<open>
  Lines 34 to 102, on the decompressed bytes: lines 22 to 32 before them only turn the
  numeric string into the bytes \<^verbatim>\<open>decompressed\<close> (\<^verbatim>\<open>int\<close>, \<^verbatim>\<open>to_bytes\<close>,
  \<^verbatim>\<open>zlib.decompress\<close>), or raise the first two errors.  \<^verbatim>\<open>dict(zip(keys, text_fields))\<close> is
  the empty map updated with the pairs in order.  The lookup of \<^verbatim>\<open>"indicator"\<close> sits
  inside the \<^verbatim>\<open>try\<close> of line 64, so a missing key would be reported like an
  unparsable indicator.  \<^verbatim>\<open>delimiter_positions[-1]\<close> is read only when the list has
  16 elements.
\<close>

definition decode_decompressed :: "nat \<Rightarrow> byte list \<Rightarrow> error + decoded_record" where
  "decode_decompressed max_str_digits decompressed =
     (let positions = delimiter_positions decompressed in
      if length positions < 16 then Inl NotEnoughDelimiters
      else
        (case extract_text_fields decompressed 0 positions [] of
           Inl e \<Rightarrow> Inl e
         | Inr text_fields \<Rightarrow>
             if length text_fields \<noteq> length keys then Inl UnexpectedFieldCount
             else
               (let text_data = Map.empty(keys [\<mapsto>] text_fields) in
                (case text_data ''indicator'' of
                   None \<Rightarrow> Inl InvalidIndicator
                 | Some indicator_text \<Rightarrow>
                     (case py_int max_str_digits indicator_text of
                        None \<Rightarrow> Inl InvalidIndicator
                      | Some indicator \<Rightarrow>
                          (let photo_b64 =
                                 b64encode (photo_bytes decompressed positions indicator);
                               result = text_data(''photo'' \<mapsto> photo_b64);
                               result = set_if_truthy ''mobile'' (mobile decompressed indicator) result;
                               result = set_if_truthy ''email'' (email decompressed indicator) result
                           in Inr result))))))"

section \<open>Notions used to state the properties\<close>

text \<open>All offsets at which the buffer holds the delimiter byte, in ascending order.\<close>

definition sentinel_offsets :: "byte list \<Rightarrow> nat list" where
  "sentinel_offsets d = filter (\<lambda>i. d ! i = delimiter) [0..<length d]"

text \<open>The text fields the second loop collects, without its accumulator.\<close>

fun fields_from :: "byte list \<Rightarrow> nat \<Rightarrow> nat list \<Rightarrow> string list" where
  "fields_from d start [] = []"
| "fields_from d start (pos # rest) =
     map latin1_char (py_slice d (int start) (int pos)) # fields_from d (pos + 1) rest"

text \<open>The first text segment: the bytes before the first delimiter, as text.\<close>

definition indicator_field :: "byte list \<Rightarrow> string" where
  "indicator_field d = map latin1_char (takeWhile (\<lambda>b. b \<noteq> delimiter) d)"

text \<open>The dictionary line 102 returns when the indicator parsed to \<open>ind\<close>.\<close>

definition record_of :: "byte list \<Rightarrow> int \<Rightarrow> decoded_record" where
  "record_of d ind =
     set_if_truthy ''email'' (email d ind)
       (set_if_truthy ''mobile'' (mobile d ind)
          ((Map.empty(keys [\<mapsto>] fields_from d 0 (delimiter_positions d)))
             (''photo'' \<mapsto> b64encode (photo_bytes d (delimiter_positions d) ind))))"

text \<open>Where the text field number \<open>i\<close> starts: at 0, or after the previous delimiter.\<close>

definition field_start :: "nat list \<Rightarrow> nat \<Rightarrow> nat" where
  "field_start ps i = (if i = 0 then 0 else ps ! (i - 1) + 1)"

text \<open>The field \<open>k\<close> of a result, \<open>None\<close> when decoding failed or the key is absent.\<close>

definition field_of :: "error + decoded_record \<Rightarrow> string \<Rightarrow> string option" where
  "field_of res k = (case res of Inl e \<Rightarrow> None | Inr r \<Rightarrow> r k)"

text \<open>
  The number of digit characters of a text, and when the interpreter's digit limit
  does not refuse it: the limit is off (0), or the text has at most 640 digits, or
  at most as many as the limit.  The last buffer has an indicator of 701 zeros.
\<close>

definition digit_count :: "string \<Rightarrow> nat" where
  "digit_count s = length (filter py_isdigit s)"

definition limit_not_reached :: "nat \<Rightarrow> string \<Rightarrow> bool" where
  "limit_not_reached max_str_digits s =
     (max_str_digits = 0 \<or> digit_count s \<le> 640 \<or> digit_count s \<le> max_str_digits)"

definition buffer_long_indicator :: "byte list" where
  "buffer_long_indicator = replicate 701 0x30 @ replicate 16 255"

subsection \<open>Synthetic containers\<close>

text \<open>
  \<^verbatim>\<open>str.encode("ISO-8859-1")\<close> on code points below 256, and the two ways to lay out
  a container from 16 texts, a photo blob, a 256-byte signature and the contact blocks
  of the indicator: the signature before the contact blocks, as the tail is
  described, or the contact blocks (mobile, then email) before the signature, where
  lines 84 to 93 read them.  \<open>segment_ends\<close> lists the offsets of the delimiters that
  end the segments of a text block starting at offset \<open>i\<close>.
\<close>

definition encode_latin1 :: "string \<Rightarrow> byte list" where
  "encode_latin1 s = map of_char s"

definition text_block :: "string list \<Rightarrow> byte list" where
  "text_block texts = concat (map (\<lambda>t. encode_latin1 t @ [delimiter]) texts)"

definition contact_blocks :: "int \<Rightarrow> byte list \<Rightarrow> byte list \<Rightarrow> byte list" where
  "contact_blocks ind mobile_block email_block =
     (if ind = 3 then mobile_block @ email_block
      else if ind = 1 then mobile_block
      else if ind = 2 then email_block
      else [])"

definition container_signature_first ::
  "string list \<Rightarrow> byte list \<Rightarrow> byte list \<Rightarrow> int \<Rightarrow> byte list \<Rightarrow> byte list \<Rightarrow> byte list" where
  "container_signature_first texts photo signature ind mobile_block email_block =
     text_block texts @ photo @ signature @ contact_blocks ind mobile_block email_block"

definition container_contacts_first ::
  "string list \<Rightarrow> byte list \<Rightarrow> byte list \<Rightarrow> int \<Rightarrow> byte list \<Rightarrow> byte list \<Rightarrow> byte list" where
  "container_contacts_first texts photo signature ind mobile_block email_block =
     text_block texts @ photo @ contact_blocks ind mobile_block email_block @ signature"

fun segment_ends :: "nat \<Rightarrow> byte list list \<Rightarrow> nat list" where
  "segment_ends i [] = []"
| "segment_ends i (s # segs) = (i + length s) # segment_ends (i + length s + 1) segs"

subsection \<open>Example buffers\<close>

text \<open>
  The indicator \<open>1\<close>, 15 empty fields, and two more bytes; the same with other bytes
  after the 16th delimiter; a buffer with 15 delimiters only; buffers whose first
  field is empty or \<open>abc\<close>.
\<close>

definition buffer_scan_a :: "byte list" where
  "buffer_scan_a = [0x31] @ replicate 16 255 @ [7, 255]"

definition buffer_scan_b :: "byte list" where
  "buffer_scan_b = [0x31] @ replicate 16 255 @ [9]"

definition buffer_15_delimiters :: "byte list" where
  "buffer_15_delimiters = replicate 15 255"

definition buffer_empty_indicator :: "byte list" where
  "buffer_empty_indicator = replicate 16 255"

definition buffer_abc_indicator :: "byte list" where
  "buffer_abc_indicator = [0x61, 0x62, 0x63] @ replicate 16 255"

definition buffer_zero_indicator :: "byte list" where
  "buffer_zero_indicator = [0x30] @ replicate 16 255"

text \<open>
  The indicator \<open>1\<close> and nothing after the 16th delimiter; the same followed by 112
  zero bytes (129 bytes, less than any tail); a container with indicator \<open>3\<close>, a
  name, a 3-byte photo, two contact blocks and a zero signature; a container with
  indicator \<open>0\<close>, a 4-byte photo and a zero signature.
\<close>

definition buffer_short_mobile :: "byte list" where
  "buffer_short_mobile = [0x31] @ replicate 16 255"

definition buffer_overlap :: "byte list" where
  "buffer_overlap = [0x31] @ replicate 16 255 @ replicate 112 0"

definition buffer_valid_both :: "byte list" where
  "buffer_valid_both = [0x33, 255, 0x41, 0x42] @ replicate 15 255 @ [1, 2, 3]
     @ map of_nat [1..<33] @ map of_nat [101..<133] @ replicate 256 0"

definition buffer_valid_photo :: "byte list" where
  "buffer_valid_photo = [0x30] @ replicate 16 255 @ [1, 2, 3, 4] @ replicate 256 0"

text \<open>
  Texts, photo and contact blocks of synthetic containers: an indicator \<open>1\<close> with 15
  empty texts, and a record with indicator \<open>3\<close>.
\<close>

definition example_texts :: "string list" where
  "example_texts = ''1'' # replicate 15 []"

definition roundtrip_texts :: "string list" where
  "roundtrip_texts = [''3'', ''REF1'', ''Name One'', ''01-01-1990'', ''M'', [], ''D'']
     @ replicate 9 []"

definition roundtrip_photo :: "byte list" where
  "roundtrip_photo = map of_nat [1..<11]"

definition roundtrip_mobile :: "byte list" where
  "roundtrip_mobile = map of_nat [1..<33]"

definition roundtrip_email :: "byte list" where
  "roundtrip_email = map of_nat [101..<133]"

section \<open>Auxiliary facts\<close>

subsection \<open>Slices and dictionaries\<close>

lemma py_slice_nat:
  "a \<le> b \<Longrightarrow> b \<le> length xs \<Longrightarrow> py_slice xs (int a) (int b) = take (b - a) (drop a xs)"
  by (auto simp: py_slice_def slice_index_def Let_def)

lemma map_upds_nth:
  "distinct ks \<Longrightarrow> length ks = length vs \<Longrightarrow> i < length ks \<Longrightarrow>
   (m(ks [\<mapsto>] vs)) (ks ! i) = Some (vs ! i)"
proof (induction ks arbitrary: vs i m)
  case Nil
  then show ?case by simp
next
  case (Cons k ks)
  then obtain v vs' where vs: "vs = v # vs'" by (cases vs) auto
  show ?case
  proof (cases i)
    case 0
    with Cons.prems vs show ?thesis by simp
  next
    case (Suc j)
    have "(m(k # ks [\<mapsto>] v # vs')) ((k # ks) ! Suc j) = ((m(k \<mapsto> v))(ks [\<mapsto>] vs')) (ks ! j)"
      by (simp only: map_upds_Cons nth_Cons_Suc)
    also have "\<dots> = Some (vs' ! j)"
      using Cons.prems vs Suc by (intro Cons.IH) auto
    finally show ?thesis using vs Suc by simp
  qed
qed

lemma distinct_keys: "distinct keys"
  by (simp add: keys_def)

lemma length_keys: "length keys = 16"
  by (simp add: keys_def)

lemma extra_keys: "''photo'' \<notin> set keys" "''mobile'' \<notin> set keys" "''email'' \<notin> set keys"
  by (simp_all add: keys_def)

lemma text_data_nth:
  "length fs = 16 \<Longrightarrow> i < 16 \<Longrightarrow> (Map.empty(keys [\<mapsto>] fs)) (keys ! i) = Some (fs ! i)"
  using map_upds_nth [OF distinct_keys, of fs i Map.empty] by (simp add: length_keys)

lemma text_data_indicator:
  "length fs = 16 \<Longrightarrow> (Map.empty(keys [\<mapsto>] fs)) ''indicator'' = Some (hd fs)"
  using text_data_nth [of fs 0] by (cases fs) (auto simp: keys_def)

subsection \<open>The scan finds the first 16 delimiter offsets\<close>

lemma sentinel_offsets_Nil: "sentinel_offsets [] = []"
  by (simp add: sentinel_offsets_def)

lemma sentinel_offsets_Cons:
  "sentinel_offsets (b # bs) = (if b = delimiter then [0] else []) @ map Suc (sentinel_offsets bs)"
proof -
  have "[0..<length (b # bs)] = 0 # map Suc [0..<length bs]"
    by (simp add: upt_conv_Cons map_Suc_upt del: upt_Suc)
  then show ?thesis
    by (simp add: sentinel_offsets_def filter_map comp_def)
qed

lemma length_sentinel_offsets: "length (sentinel_offsets d) = count_list d delimiter"
  by (induction d) (auto simp: sentinel_offsets_Cons sentinel_offsets_Nil)

lemma sorted_sentinel_offsets: "sorted_wrt (<) (sentinel_offsets d)"
  by (simp add: sentinel_offsets_def sorted_wrt_filter)

lemma hd_sentinel_offsets:
  "sentinel_offsets d \<noteq> [] \<Longrightarrow>
   hd (sentinel_offsets d) = length (takeWhile (\<lambda>b. b \<noteq> delimiter) d)"
  by (induction d) (auto simp: sentinel_offsets_Cons sentinel_offsets_Nil hd_map)

lemma scan_delimiters_eq:
  "length acc < 16 \<Longrightarrow>
   scan_delimiters bs i acc = acc @ take (16 - length acc) (map (\<lambda>j. i + j) (sentinel_offsets bs))"
proof (induction bs arbitrary: i acc)
  case Nil
  then show ?case by (simp add: sentinel_offsets_Nil)
next
  case (Cons b bs)
  show ?case
  proof (cases "b = delimiter")
    case False
    with Cons show ?thesis
      by (simp add: sentinel_offsets_Cons comp_def)
  next
    case True
    show ?thesis
    proof (cases "length acc = 15")
      case True
      with \<open>b = delimiter\<close> show ?thesis
        by (simp add: sentinel_offsets_Cons)
    next
      case False
      with Cons.prems have l: "length (acc @ [i]) < 16" by simp
      from Cons.prems False obtain m
        where m: "16 - length acc = Suc m" "16 - length (acc @ [i]) = m"
        by (cases "16 - length acc") auto
      show ?thesis
        using \<open>b = delimiter\<close> False Cons.IH [OF l, of "i + 1"] m
        by (simp add: sentinel_offsets_Cons comp_def)
    qed
  qed
qed

lemma delimiter_positions_take: "delimiter_positions d = take 16 (sentinel_offsets d)"
  using scan_delimiters_eq [of "[]" d 0] by (simp add: delimiter_positions_def)

lemma length_delimiter_positions:
  "length (delimiter_positions d) = min 16 (count_list d delimiter)"
  by (simp add: delimiter_positions_take length_sentinel_offsets)

lemma last_scan_ge:
  assumes "length acc < 16" and "length (scan_delimiters bs i acc) = 16"
  shows "i \<le> last (scan_delimiters bs i acc)"
proof -
  let ?t = "take (16 - length acc) (map (\<lambda>j. i + j) (sentinel_offsets bs))"
  from assms have eq: "scan_delimiters bs i acc = acc @ ?t" by (simp add: scan_delimiters_eq)
  with assms have ne: "?t \<noteq> []" by auto
  then have "last ?t \<in> set ?t" by (rule last_in_set)
  then have "last ?t \<in> set (map (\<lambda>j. i + j) (sentinel_offsets bs))" by (rule in_set_takeD)
  then have "i \<le> last ?t" by auto
  with eq ne show ?thesis by simp
qed

lemma scan_agree:
  "length acc < 16 \<Longrightarrow> length (scan_delimiters bs i acc) = 16 \<Longrightarrow>
   take (last (scan_delimiters bs i acc) + 1 - i) bs'
     = take (last (scan_delimiters bs i acc) + 1 - i) bs \<Longrightarrow>
   scan_delimiters bs' i acc = scan_delimiters bs i acc"
proof (induction bs arbitrary: i acc bs')
  case Nil
  then show ?case by simp
next
  case (Cons b bs)
  let ?p = "last (scan_delimiters (b # bs) i acc)"
  from Cons.prems(1,2) have ge: "i \<le> ?p" by (rule last_scan_ge)
  then have k: "?p + 1 - i = Suc (?p - i)" by simp
  from Cons.prems(3) obtain bs''
    where bs': "bs' = b # bs''" and t: "take (?p - i) bs'' = take (?p - i) bs"
    unfolding k by (cases bs') auto
  show ?case
  proof (cases "b = delimiter \<and> length acc = 15")
    case True
    then show ?thesis by (simp add: bs')
  next
    case False
    define acc' where "acc' = (if b = delimiter then acc @ [i] else acc)"
    from False Cons.prems(1) have la: "length acc' < 16" by (auto simp: acc'_def)
    from False have eq: "scan_delimiters (b # bs) i acc = scan_delimiters bs (i + 1) acc'"
      and eq': "scan_delimiters (b # bs'') i acc = scan_delimiters bs'' (i + 1) acc'"
      by (auto simp: acc'_def)
    from Cons.prems(2) eq have l: "length (scan_delimiters bs (i + 1) acc') = 16" by simp
    from la l have "i + 1 \<le> last (scan_delimiters bs (i + 1) acc')" by (rule last_scan_ge)
    with t eq have "take (last (scan_delimiters bs (i + 1) acc') + 1 - (i + 1)) bs''
        = take (last (scan_delimiters bs (i + 1) acc') + 1 - (i + 1)) bs" by simp
    from Cons.IH [OF la l this] show ?thesis by (simp only: bs' eq eq')
  qed
qed

subsection \<open>The text fields and the three outcomes of the decoder\<close>

lemma length_fields_from: "length (fields_from d start ps) = length ps"
  by (induction ps arbitrary: start) auto

lemma extract_text_fields_eq:
  "extract_text_fields d start ps acc = Inr (acc @ fields_from d start ps)"
  by (induction ps arbitrary: start acc) (auto simp: decode_latin1_def)

lemma first_field:
  assumes "delimiter_positions d \<noteq> []"
  shows "hd (fields_from d 0 (delimiter_positions d)) = indicator_field d"
proof -
  from assms have ne: "sentinel_offsets d \<noteq> []" by (auto simp: delimiter_positions_take)
  then obtain p ps where ps: "delimiter_positions d = p # ps" and p: "p = hd (sentinel_offsets d)"
    by (cases "sentinel_offsets d") (auto simp: delimiter_positions_take)
  have "py_slice d 0 (int p) = takeWhile (\<lambda>b. b \<noteq> delimiter) d"
    using py_slice_nat [of 0 p d] p hd_sentinel_offsets [OF ne]
    by (simp add: length_takeWhile_le takeWhile_eq_take [symmetric])
  with ps show ?thesis by (simp add: indicator_field_def)
qed

lemma text_data_indicator_field:
  assumes "16 \<le> count_list d delimiter"
  shows "(Map.empty(keys [\<mapsto>] fields_from d 0 (delimiter_positions d))) ''indicator''
           = Some (indicator_field d)"
proof -
  from assms have l: "length (delimiter_positions d) = 16"
    by (simp add: length_delimiter_positions)
  then have "delimiter_positions d \<noteq> []" by auto
  then have "hd (fields_from d 0 (delimiter_positions d)) = indicator_field d" by (rule first_field)
  with l show ?thesis by (simp add: text_data_indicator length_fields_from)
qed

lemma decode_decompressed_Inr:
  assumes "16 \<le> count_list d delimiter" and "py_int lim (indicator_field d) = Some ind"
  shows "decode_decompressed lim d = Inr (record_of d ind)"
proof -
  from assms(1) have l: "length (delimiter_positions d) = 16"
    by (simp add: length_delimiter_positions)
  then have lf: "length (fields_from d 0 (delimiter_positions d)) = 16"
    by (simp add: length_fields_from)
  show ?thesis
    unfolding decode_decompressed_def Let_def record_of_def
    by (simp only: l extract_text_fields_eq append_Nil sum.case lf length_keys
        text_data_indicator_field [OF assms(1)] option.case assms(2) less_irrefl if_False simp_thms)
qed

lemma decode_decompressed_few:
  "count_list d delimiter < 16 \<Longrightarrow> decode_decompressed lim d = Inl NotEnoughDelimiters"
  by (simp add: decode_decompressed_def length_delimiter_positions)

lemma decode_decompressed_bad_indicator:
  assumes "16 \<le> count_list d delimiter" and "py_int lim (indicator_field d) = None"
  shows "decode_decompressed lim d = Inl InvalidIndicator"
proof -
  from assms(1) have l: "length (delimiter_positions d) = 16"
    by (simp add: length_delimiter_positions)
  then have lf: "length (fields_from d 0 (delimiter_positions d)) = 16"
    by (simp add: length_fields_from)
  show ?thesis
    unfolding decode_decompressed_def Let_def
    by (simp only: l extract_text_fields_eq append_Nil sum.case lf length_keys
        text_data_indicator_field [OF assms(1)] option.case assms(2) less_irrefl if_False simp_thms)
qed

subsection \<open>Hexadecimal and base64 text\<close>

lemma length_bytes_hex: "length (bytes_hex bs) = 2 * length bs"
  by (induction bs) (auto simp: bytes_hex_def hex_byte_def)

lemma bytes_hex_Nil_iff: "bytes_hex bs = [] \<longleftrightarrow> bs = []"
  using length_bytes_hex [of bs] by (metis length_0_conv mult_is_0 zero_neq_numeral)

lemma hex_digit_in: "n < 16 \<Longrightarrow> hex_digit n \<in> set hex_digits"
  unfolding hex_digit_def by (rule nth_mem) (simp add: hex_digits_def)

lemma unat_byte_less: "unat (b :: byte) < 256"
  using unsigned_less [of b, where 'a = nat] by simp

lemma set_hex_byte: "set (hex_byte b) \<subseteq> set hex_digits"
proof -
  have "unat b div 16 < 16" using unat_byte_less [of b] by simp
  moreover have "unat b mod 16 < 16" by simp
  ultimately show ?thesis
    by (simp add: hex_byte_def hex_digit_in)
qed

lemma set_bytes_hex: "set (bytes_hex bs) \<subseteq> set hex_digits"
  using set_hex_byte by (auto simp: bytes_hex_def)

lemma b64_char_in: "n < 64 \<Longrightarrow> b64_char n \<in> set b64_alphabet"
  unfolding b64_char_def by (rule nth_mem) (simp add: b64_alphabet_def)

lemma set_b64encode: "set (b64encode bs) \<subseteq> set b64_alphabet \<union> {CHR ''=''}"
proof (induction bs rule: b64encode.induct)
  case 1
  then show ?case by simp
next
  case (2 a)
  have "unat a div 4 < 64" "unat a mod 4 * 16 < 64"
    using unat_byte_less [of a] by simp_all
  then show ?case by (simp add: b64_char_in)
next
  case (3 a b)
  have "unat a div 4 < 64" "unat a mod 4 * 16 + unat b div 16 < 64" "unat b mod 16 * 4 < 64"
    using unat_byte_less [of a] unat_byte_less [of b] by simp_all
  then show ?case by (simp add: b64_char_in)
next
  case (4 a b c rest)
  have "unat a div 4 < 64" "unat a mod 4 * 16 + unat b div 16 < 64"
    "unat b mod 16 * 4 + unat c div 64 < 64" "unat c mod 64 < 64"
    using unat_byte_less [of a] unat_byte_less [of b] unat_byte_less [of c] by simp_all
  with 4 show ?case by (simp add: b64_char_in)
qed

lemma b64encode_no_newline: "CHR 0x0A \<notin> set (b64encode bs)"
proof -
  have "CHR 0x0A \<notin> set b64_alphabet \<union> {CHR ''=''}" by (simp add: b64_alphabet_def)
  with set_b64encode [of bs] show ?thesis by blast
qed

lemma length_b64encode: "length (b64encode bs) = 4 * ((length bs + 2) div 3)"
proof (induction bs rule: b64encode.induct)
  case (4 a b c rest)
  have "(5 + length rest) div 3 = Suc ((length rest + 2) div 3)" by arith
  with 4 show ?case by simp
qed simp_all

subsection \<open>Entries of the returned dictionary\<close>

lemma record_of_photo:
  "record_of d ind ''photo'' = Some (b64encode (photo_bytes d (delimiter_positions d) ind))"
  by (simp add: record_of_def set_if_truthy_def)

lemma record_of_mobile:
  "record_of d ind ''mobile'' = (if truthy (mobile d ind) then mobile d ind else None)"
  using extra_keys(2) by (auto simp: record_of_def set_if_truthy_def truthy_def split: option.splits)

lemma record_of_email:
  "record_of d ind ''email'' = (if truthy (email d ind) then email d ind else None)"
  using extra_keys(3) by (auto simp: record_of_def set_if_truthy_def truthy_def split: option.splits)

lemma record_of_key:
  assumes "k \<in> set keys"
  shows "record_of d ind k = (Map.empty(keys [\<mapsto>] fields_from d 0 (delimiter_positions d))) k"
proof -
  from assms extra_keys have "k \<noteq> ''photo''" "k \<noteq> ''mobile''" "k \<noteq> ''email''" by auto
  then show ?thesis by (simp add: record_of_def set_if_truthy_def)
qed

lemma decode_decompressed_Inr_iff:
  "decode_decompressed lim d = Inr r \<longleftrightarrow>
     16 \<le> count_list d delimiter \<and> (\<exists>ind. py_int lim (indicator_field d) = Some ind \<and> r = record_of d ind)"
proof (cases "16 \<le> count_list d delimiter")
  case False
  then show ?thesis by (simp add: decode_decompressed_few)
next
  case True
  then show ?thesis
    by (cases "py_int lim (indicator_field d)")
       (auto simp: decode_decompressed_bad_indicator decode_decompressed_Inr)
qed

lemma last_delimiter_less:
  assumes "16 \<le> count_list d delimiter"
  shows "last (delimiter_positions d) < length d"
proof -
  from assms have "delimiter_positions d \<noteq> []"
    using length_delimiter_positions [of d] by auto
  then have "last (delimiter_positions d) \<in> set (delimiter_positions d)" by (rule last_in_set)
  then have "last (delimiter_positions d) \<in> set (sentinel_offsets d)"
    unfolding delimiter_positions_take by (rule in_set_takeD)
  then show ?thesis by (simp add: sentinel_offsets_def)
qed

lemma slice_as_range:
  "a \<le> b \<Longrightarrow> b \<le> length xs \<Longrightarrow> py_slice xs (int a) (int b) = map ((!) xs) [a..<b]"
proof -
  assume ab: "a \<le> b" and b: "b \<le> length xs"
  have "take (b - a) (drop a xs) = map ((!) xs) [a..<b]"
    using ab b by (intro nth_equalityI) auto
  with ab b show ?thesis by (simp add: py_slice_nat)
qed

lemma tail_length_cases:
  "tail_length ind = 256 + (if ind = 3 then 64 else if ind = 1 \<or> ind = 2 then 32 else 0)"
  by (simp add: tail_length_def tail_extra_def)

lemma contact_slice_32:
  assumes "0 \<le> a" and "b = a + 32" and "b \<le> int (length d)"
  shows "py_slice d a b = take 32 (drop (nat a) d)"
proof -
  from assms have "py_slice d (int (nat a)) (int (nat a + 32)) = take (nat a + 32 - nat a) (drop (nat a) d)"
    by (intro py_slice_nat) auto
  with assms show ?thesis by simp
qed

lemma mobile_cases:
  "mobile d ind = (if ind = 1 \<or> ind = 3
     then Some (bytes_hex (rev (py_slice d (tail_start d ind) (tail_start d ind + 32)))) else None)"
  by (simp add: mobile_def Let_def)

lemma email_cases:
  "email d ind =
     (if ind = 3
      then Some (bytes_hex (rev (py_slice d (tail_start d ind + 32) (tail_start d ind + 64))))
      else if ind = 2
      then Some (bytes_hex (rev (py_slice d (tail_start d ind) (tail_start d ind + 32))))
      else None)"
  by (simp add: email_def Let_def)

lemma truthy_Some_hex: "truthy (Some (bytes_hex (rev bs))) \<longleftrightarrow> bs \<noteq> []"
  by (simp add: truthy_def bytes_hex_Nil_iff)

subsection \<open>Text fields lie between consecutive delimiters\<close>

lemma of_char_latin1_char: "of_char (latin1_char b) = unat b"
  using unat_byte_less [of b] by (simp add: latin1_char_def)

lemma latin1_char_delimiter: "latin1_char b = CHR 0xFF \<longleftrightarrow> b = delimiter"
proof
  assume "latin1_char b = CHR 0xFF"
  then have "(of_char (latin1_char b) :: nat) = of_char (CHR 0xFF)" by simp
  then have "unat b = 255" by (simp add: of_char_latin1_char)
  then have "unat b = unat (255 :: byte)" by simp
  then have "b = 255" by (simp only: word_unat_eq_iff)
  then show "b = delimiter" by (simp add: delimiter_def)
next
  assume "b = delimiter"
  then have "unat b = of_char (CHR 0xFF)" by (simp add: delimiter_def)
  then show "latin1_char b = CHR 0xFF" by (simp only: latin1_char_def char_of_char)
qed

lemma fields_from_nth:
  "i < length ps \<Longrightarrow>
   fields_from d start ps ! i
     = map latin1_char (py_slice d (int (if i = 0 then start else ps ! (i - 1) + 1)) (int (ps ! i)))"
proof (induction ps arbitrary: start i)
  case Nil
  then show ?case by simp
next
  case (Cons p ps)
  show ?case
  proof (cases i)
    case 0
    then show ?thesis by simp
  next
    case (Suc j)
    with Cons.prems have "j < length ps" by simp
    from Cons.IH [OF this, of "p + 1"] Suc show ?thesis
      by (cases j) simp_all
  qed
qed

lemma strict_sorted_nth_less:
  assumes "sorted_wrt (<) (xs :: nat list)" and "a < length xs" and "b < length xs" and "xs ! a < xs ! (b::nat)"
  shows "a < b"
proof (rule ccontr)
  assume "\<not> a < b"
  then have "b = a \<or> b < a" by auto
  then show False
  proof
    assume "b = a" with assms(4) show False by simp
  next
    assume "b < a"
    with assms(1,2) have "xs ! b < xs ! a" by (simp add: sorted_wrt_nth_less)
    with assms(4) show False by simp
  qed
qed

lemma field_range:
  assumes "16 \<le> count_list d delimiter" and "i < 16"
  shows "field_start (delimiter_positions d) i \<le> delimiter_positions d ! i"
    and "delimiter_positions d ! i < length d"
    and "\<forall>j. field_start (delimiter_positions d) i \<le> j \<and> j < delimiter_positions d ! i
           \<longrightarrow> d ! j \<noteq> delimiter"
proof -
  let ?so = "sentinel_offsets d"
  let ?ps = "delimiter_positions d"
  from assms(1) have len: "16 \<le> length ?so" by (simp add: length_sentinel_offsets)
  with assms(2) have i: "i < length ?so" by simp
  have nth: "?ps ! k = ?so ! k" if "k < 16" for k
    using that by (simp add: delimiter_positions_take)
  have st: "sorted_wrt (<) ?so" by (rule sorted_sentinel_offsets)
  show "field_start ?ps i \<le> ?ps ! i"
  proof (cases i)
    case 0
    then show ?thesis by (simp add: field_start_def)
  next
    case (Suc k)
    with i st have "?so ! k < ?so ! i" by (simp add: sorted_wrt_nth_less)
    with Suc assms(2) show ?thesis by (simp add: field_start_def nth)
  qed
  from i have "?so ! i \<in> set ?so" by simp
  then show "?ps ! i < length d" using assms(2) by (simp add: nth sentinel_offsets_def)
  show "\<forall>j. field_start ?ps i \<le> j \<and> j < ?ps ! i \<longrightarrow> d ! j \<noteq> delimiter"
  proof (intro allI impI notI)
    fix j
    assume j: "field_start ?ps i \<le> j \<and> j < ?ps ! i" and dj: "d ! j = delimiter"
    from j \<open>?ps ! i < length d\<close> have "j < length d" by simp
    with dj have "j \<in> set ?so" by (simp add: sentinel_offsets_def)
    then obtain k where k: "k < length ?so" "?so ! k = j" by (auto simp: in_set_conv_nth)
    from j assms(2) have "?so ! k < ?so ! i" by (simp add: nth k)
    with st k(1) i have ki: "k < i" by (rule strict_sorted_nth_less)
    then obtain m where m: "i = Suc m" by (cases i) auto
    with j assms(2) have "?so ! m < ?so ! k" by (simp add: field_start_def nth k)
    with st have "m < k" using k(1) i m by (intro strict_sorted_nth_less [of ?so m k]) auto
    with ki m show False by simp
  qed
qed

subsection \<open>Decoding a synthetic container\<close>

lemma unat_of_char: "unat (of_char c :: byte) = of_char c"
proof -
  have "(of_char c :: byte) = of_nat (of_char c)" by (simp add: of_nat_of_char)
  moreover have "(of_char c :: nat) < 256" by (rule nat_of_char_less_256)
  ultimately show ?thesis by (simp add: unat_of_nat)
qed

lemma latin1_char_of_char: "latin1_char (of_char c) = c"
  by (simp add: latin1_char_def unat_of_char)

lemma decode_encode_latin1: "map latin1_char (encode_latin1 t) = t"
  by (simp add: encode_latin1_def comp_def latin1_char_of_char)

lemma encode_latin1_no_delimiter:
  "CHR 0xFF \<notin> set t \<Longrightarrow> delimiter \<notin> set (encode_latin1 t)"
proof
  assume a: "CHR 0xFF \<notin> set t" and "delimiter \<in> set (encode_latin1 t)"
  then obtain c where c: "c \<in> set t" "of_char c = delimiter" by (auto simp: encode_latin1_def)
  from c(2) have "latin1_char (of_char c) = CHR 0xFF" by (simp only: latin1_char_delimiter)
  then have "c = CHR 0xFF" by (simp only: latin1_char_of_char)
  with c(1) a show False by simp
qed

lemma scan_segment:
  "delimiter \<notin> set s \<Longrightarrow> length acc < 16 \<Longrightarrow>
   scan_delimiters (s @ delimiter # bs) i acc =
     (if length acc = 15 then acc @ [i + length s]
      else scan_delimiters bs (i + length s + 1) (acc @ [i + length s]))"
  by (induction s arbitrary: i) auto

lemma scan_segments:
  "\<forall>s\<in>set segs. delimiter \<notin> set s \<Longrightarrow> segs \<noteq> [] \<Longrightarrow> length acc + length segs = 16 \<Longrightarrow>
   scan_delimiters (concat (map (\<lambda>s. s @ [delimiter]) segs) @ rest) i acc = acc @ segment_ends i segs"
proof (induction segs arbitrary: i acc)
  case Nil
  then show ?case by simp
next
  case (Cons s segs)
  from Cons.prems have la: "length acc < 16" and ns: "delimiter \<notin> set s" by auto
  have eq: "concat (map (\<lambda>s. s @ [delimiter]) (s # segs)) @ rest
      = s @ delimiter # (concat (map (\<lambda>s. s @ [delimiter]) segs) @ rest)" by simp
  show ?case
  proof (cases "segs = []")
    case True
    with Cons.prems have "length acc = 15" by simp
    with True show ?thesis unfolding eq by (simp add: scan_segment [OF ns la])
  next
    case False
    with Cons.prems have n15: "length acc \<noteq> 15" by (cases segs) auto
    from Cons.prems have "length (acc @ [i + length s]) + length segs = 16" by simp
    with Cons.IH [of "acc @ [i + length s]" "i + length s + 1"] False Cons.prems(1)
    have "scan_delimiters (concat (map (\<lambda>s. s @ [delimiter]) segs) @ rest) (i + length s + 1)
        (acc @ [i + length s]) = (acc @ [i + length s]) @ segment_ends (i + length s + 1) segs"
      by simp
    with n15 show ?thesis unfolding eq by (simp add: scan_segment [OF ns la])
  qed
qed

lemma py_slice_mid:
  "py_slice (pre @ mid @ post) (int (length pre)) (int (length pre + length mid)) = mid"
  using py_slice_nat [of "length pre" "length pre + length mid" "pre @ mid @ post"] by simp

lemma fields_from_segments:
  "fields_from (pre @ concat (map (\<lambda>s. s @ [delimiter]) segs) @ rest) (length pre)
     (segment_ends (length pre) segs) = map (map latin1_char) segs"
proof (induction segs arbitrary: pre)
  case Nil
  then show ?case by simp
next
  case (Cons s segs)
  let ?more = "concat (map (\<lambda>s. s @ [delimiter]) segs) @ rest"
  have d: "pre @ concat (map (\<lambda>s. s @ [delimiter]) (s # segs)) @ rest
      = pre @ s @ (delimiter # ?more)" by simp
  have d': "pre @ concat (map (\<lambda>s. s @ [delimiter]) (s # segs)) @ rest
      = (pre @ s @ [delimiter]) @ ?more" by simp
  have "py_slice (pre @ s @ (delimiter # ?more)) (int (length pre)) (int (length pre + length s)) = s"
    by (rule py_slice_mid)
  moreover have "fields_from ((pre @ s @ [delimiter]) @ ?more) (length (pre @ s @ [delimiter]))
     (segment_ends (length (pre @ s @ [delimiter])) segs) = map (map latin1_char) segs"
    by (rule Cons.IH)
  ultimately show ?case
    unfolding d by (simp add: add.commute add.left_commute)
qed

lemma last_segment_ends:
  "segs \<noteq> [] \<Longrightarrow>
   last (segment_ends i segs) + 1 = i + length (concat (map (\<lambda>s. s @ [delimiter]) segs))"
proof (induction segs arbitrary: i)
  case Nil
  then show ?case by simp
next
  case (Cons s segs)
  show ?case
  proof (cases segs)
    case Nil
    then show ?thesis by simp
  next
    case (Cons s' segs')
    then have ne: "segs \<noteq> []" by simp
    then have "segment_ends (i + length s + 1) segs \<noteq> []" by (cases segs) auto
    with Cons.IH [OF ne, of "i + length s + 1"] show ?thesis by simp
  qed
qed

lemma length_contact_blocks:
  "length mb = 32 \<Longrightarrow> length eb = 32 \<Longrightarrow> int (length (contact_blocks ind mb eb)) = tail_extra ind"
  by (simp add: contact_blocks_def tail_extra_def)

subsection \<open>The digit limit of the indicator\<close>

lemma digit_count_Cons:
  "digit_count (c # cs) = (if py_isdigit c then 1 else 0) + digit_count cs"
  by (simp add: digit_count_def)

lemma parse_digits_count:
  "parse_digits cs acc cnt = Some (n, k) \<Longrightarrow> k \<le> cnt + digit_count cs"
proof (induction cs acc cnt rule: parse_digits.induct)
  case (1 acc cnt)
  then show ?case by (simp add: digit_count_def)
next
  case (2 c cs acc cnt)
  show ?case
  proof (cases "py_isdigit c")
    case True
    with 2 show ?thesis by (simp add: digit_count_Cons)
  next
    case False
    with "2.prems" obtain d ds where cs: "cs = d # ds" and u: "c = CHR ''_''" and d: "py_isdigit d"
      and p: "parse_digits ds (10 * acc + digit_value d) (cnt + 1) = Some (n, k)"
      by (auto split: if_splits list.splits)
    from "2.IH"(2) [OF False u cs d p] show ?thesis
      using False d by (simp add: cs digit_count_Cons)
  qed
qed

lemma digit_count_dropWhile: "digit_count (dropWhile P s) \<le> digit_count s"
proof -
  have "digit_count s = digit_count (takeWhile P s) + digit_count (dropWhile P s)"
    unfolding digit_count_def by (metis filter_append length_append takeWhile_dropWhile_id)
  then show ?thesis by simp
qed

lemma digit_count_rev: "digit_count (rev s) = digit_count s"
  by (simp add: digit_count_def rev_filter [symmetric])

lemma digit_count_strip: "digit_count (py_strip s) \<le> digit_count s"
proof -
  have "digit_count (py_strip s) = digit_count (dropWhile py_isspace (rev (dropWhile py_isspace s)))"
    by (simp add: py_strip_def digit_count_rev)
  also have "\<dots> \<le> digit_count (rev (dropWhile py_isspace s))"
    by (rule digit_count_dropWhile)
  also have "\<dots> = digit_count (dropWhile py_isspace s)"
    by (rule digit_count_rev)
  also have "\<dots> \<le> digit_count s"
    by (rule digit_count_dropWhile)
  finally show ?thesis .
qed

lemma py_int_limit:
  assumes "limit_not_reached lim s"
  shows "py_int lim s = py_int 0 s"
proof -
  let ?t = "py_strip s"
  define sb where "sb = (case ?t of
               [] \<Rightarrow> (False, ?t)
             | c # cs \<Rightarrow>
                 if c = CHR ''-'' then (True, cs)
                 else if c = CHR ''+'' then (False, cs)
                 else (False, ?t))"
  obtain negative body where nb: "sb = (negative, body)" by (cases sb)
  have "digit_count (snd sb) \<le> digit_count ?t"
    unfolding sb_def by (cases ?t) (simp_all add: digit_count_Cons)
  with nb have le: "digit_count body \<le> digit_count s"
    using digit_count_strip [of s] by simp
  have unf: "py_int l s = (case body of
           [] \<Rightarrow> None
         | c # cs \<Rightarrow>
             if \<not> py_isdigit c then None
             else (case parse_digits cs (digit_value c) 1 of
                     None \<Rightarrow> None
                   | Some (n, cnt) \<Rightarrow>
                       if 640 < cnt \<and> 0 < l \<and> l < cnt then None
                       else Some (if negative then - int n else int n)))" for l
    unfolding py_int_def Let_def sb_def [symmetric] nb by simp
  show ?thesis
  proof (cases body)
    case Nil
    then show ?thesis by (simp add: unf)
  next
    case (Cons c cs)
    show ?thesis
    proof (cases "py_isdigit c")
      case False
      with Cons show ?thesis by (simp add: unf)
    next
      case True
      show ?thesis
      proof (cases "parse_digits cs (digit_value c) 1")
        case None
        with Cons True show ?thesis by (simp add: unf)
      next
        case (Some res)
        obtain n k where res: "res = (n, k)" by (cases res)
        from Some res have p: "parse_digits cs (digit_value c) 1 = Some (n, k)" by simp
        from parse_digits_count [OF p] True Cons have "k \<le> digit_count body"
          by (simp add: digit_count_Cons)
        with le have "k \<le> digit_count s" by simp
        with assms have "\<not> (640 < k \<and> 0 < lim \<and> lim < k)"
          by (auto simp: limit_not_reached_def)
        with Cons True p show ?thesis by (simp add: unf)
      qed
    qed
  qed
qed

lemma decode_decompressed_limit:
  assumes "py_int lim (indicator_field d) = py_int lim' (indicator_field d)"
  shows "decode_decompressed lim d = decode_decompressed lim' d"
proof (cases "16 \<le> count_list d delimiter")
  case False
  then show ?thesis by (simp add: decode_decompressed_few)
next
  case True
  show ?thesis
  proof (cases "py_int lim (indicator_field d)")
    case None
    with True assms show ?thesis by (simp add: decode_decompressed_bad_indicator)
  next
    case (Some ind)
    with assms have "py_int lim' (indicator_field d) = Some ind" by simp
    with True Some show ?thesis by (simp add: decode_decompressed_Inr)
  qed
qed

lemma count_list_replicate: "count_list (replicate n x) y = (if x = y then n else 0)"
  by (induction n) auto

lemma count_list_append': "count_list (xs @ ys) y = count_list xs y + count_list ys y"
  by (induction xs) auto

lemma long_indicator_count: "16 \<le> count_list buffer_long_indicator delimiter"
  by (simp add: buffer_long_indicator_def count_list_append' count_list_replicate delimiter_def)

lemma parse_digits_zeros:
  "parse_digits (replicate n CHR ''0'') 0 cnt = Some (0, cnt + n)"
  by (induction n arbitrary: cnt) (simp_all add: py_isdigit_def digit_value_def)

lemma py_strip_zeros: "py_strip (replicate (Suc n) CHR ''0'') = replicate (Suc n) CHR ''0''"
proof -
  have "\<not> py_isspace CHR ''0''" by (simp add: py_isspace_def)
  then have d: "dropWhile py_isspace (replicate (Suc n) CHR ''0'') = replicate (Suc n) CHR ''0''"
    by simp
  show ?thesis unfolding py_strip_def d by (simp only: rev_replicate d rev_rev_ident)
qed

lemma py_int_zeros:
  "py_int lim (replicate (Suc n) CHR ''0'')
     = (if 640 < Suc n \<and> 0 < lim \<and> lim < Suc n then None else Some 0)"
  unfolding py_int_def Let_def py_strip_zeros
  by (simp add: parse_digits_zeros py_isdigit_def digit_value_def)

lemma indicator_field_long: "indicator_field buffer_long_indicator = replicate 701 CHR ''0''"
proof -
  have "latin1_char 0x30 = CHR ''0''" by code_simp
  moreover have "(0x30 :: byte) \<noteq> delimiter" by (simp add: delimiter_def)
  ultimately show ?thesis
    by (simp add: indicator_field_def buffer_long_indicator_def takeWhile_append delimiter_def)
qed

lemma long_indicator_650: "py_int 650 (indicator_field buffer_long_indicator) = None"
  using py_int_zeros [of 650 700] by (simp add: indicator_field_long)

lemma long_indicator_0: "py_int 0 (indicator_field buffer_long_indicator) = Some 0"
  using py_int_zeros [of 0 700] by (simp add: indicator_field_long)

lemma digit_count_zeros: "digit_count (replicate n CHR ''0'') = n"
  by (simp add: digit_count_def py_isdigit_def)

section \<open>The delimiter scanner\<close>

text \<open>
  Claim C4.  For every input buffer the delimiter scanner returns exactly the first 16
  offsets, scanning forward from offset 0, at which the byte equals 255, in strictly
  ascending order.  It stops at the 16th: a buffer that agrees with the input up to
  and including the 16th delimiter gives the same offsets, whatever follows.  If
  fewer than 16 bytes of the whole buffer equal 255, decoding fails with the
  "not enough delimiters" error.
\<close>

theorem delimiter_scan_first_16:
  "delimiter_positions d = take 16 (sentinel_offsets d)
   \<and> sorted_wrt (<) (delimiter_positions d)
   \<and> (length (delimiter_positions d) = 16 \<longrightarrow>
        (\<forall>d'. take (last (delimiter_positions d) + 1) d' = take (last (delimiter_positions d) + 1) d
           \<longrightarrow> delimiter_positions d' = delimiter_positions d))
   \<and> (count_list d delimiter < 16 \<longrightarrow> decode_decompressed lim d = Inl NotEnoughDelimiters)"
proof (intro conjI impI allI)
  show "delimiter_positions d = take 16 (sentinel_offsets d)"
    by (rule delimiter_positions_take)
  show "sorted_wrt (<) (delimiter_positions d)"
    unfolding delimiter_positions_take using sorted_sentinel_offsets
    by (rule sorted_wrt_take)
next
  fix d'
  assume "length (delimiter_positions d) = 16"
    and "take (last (delimiter_positions d) + 1) d' = take (last (delimiter_positions d) + 1) d"
  then show "delimiter_positions d' = delimiter_positions d"
    unfolding delimiter_positions_def using scan_agree [of "[]" d 0 d'] by simp
next
  assume "count_list d delimiter < 16"
  then show "decode_decompressed lim d = Inl NotEnoughDelimiters"
    by (rule decode_decompressed_few)
qed

theorem delimiter_scan_first_16_witness:
  "length (delimiter_positions buffer_scan_a) = 16
   \<and> take (last (delimiter_positions buffer_scan_a) + 1) buffer_scan_b
      = take (last (delimiter_positions buffer_scan_a) + 1) buffer_scan_a
   \<and> delimiter_positions buffer_scan_b = delimiter_positions buffer_scan_a
   \<and> delimiter_positions buffer_scan_a = [1..<17]
   \<and> count_list buffer_15_delimiters delimiter < 16
   \<and> decode_decompressed 4300 buffer_15_delimiters = Inl NotEnoughDelimiters"
proof -
  have a: "length (delimiter_positions buffer_scan_a) = 16" by code_simp
  have b: "take (last (delimiter_positions buffer_scan_a) + 1) buffer_scan_b
      = take (last (delimiter_positions buffer_scan_a) + 1) buffer_scan_a"
    by code_simp
  have c: "count_list buffer_15_delimiters delimiter < 16" by code_simp
  have e: "delimiter_positions buffer_scan_a = [1..<17]" by code_simp
  from delimiter_scan_first_16 [of buffer_scan_a 4300] a b
  have "delimiter_positions buffer_scan_b = delimiter_positions buffer_scan_a" by blast
  moreover from delimiter_scan_first_16 [of buffer_15_delimiters 4300] c
  have "decode_decompressed 4300 buffer_15_delimiters = Inl NotEnoughDelimiters" by blast
  ultimately show ?thesis using a b c e by blast
qed

section \<open>The indicator\<close>

text \<open>
  Claim C6.  For every input buffer with at least 16 delimiter bytes whose first text
  segment, the indicator field, is empty or does not parse as a base-10 integer,
  decoding fails with the "invalid indicator" error.
\<close>

theorem invalid_indicator_fails:
  assumes "16 \<le> count_list d delimiter"
    and "indicator_field d = [] \<or> py_int lim (indicator_field d) = None"
  shows "decode_decompressed lim d = Inl InvalidIndicator"
proof -
  have "py_int lim [] = None" by (simp add: py_int_def py_strip_def)
  with assms(2) have "py_int lim (indicator_field d) = None" by auto
  with assms(1) show ?thesis by (rule decode_decompressed_bad_indicator)
qed

theorem invalid_indicator_fails_witness:
  "16 \<le> count_list buffer_empty_indicator delimiter
   \<and> indicator_field buffer_empty_indicator = []
   \<and> decode_decompressed 4300 buffer_empty_indicator = Inl InvalidIndicator
   \<and> 16 \<le> count_list buffer_abc_indicator delimiter
   \<and> indicator_field buffer_abc_indicator = ''abc''
   \<and> py_int 4300 (indicator_field buffer_abc_indicator) = None
   \<and> decode_decompressed 4300 buffer_abc_indicator = Inl InvalidIndicator"
proof -
  have a: "16 \<le> count_list buffer_empty_indicator delimiter" by code_simp
  have b: "indicator_field buffer_empty_indicator = []" by code_simp
  have c: "16 \<le> count_list buffer_abc_indicator delimiter" by code_simp
  have e: "indicator_field buffer_abc_indicator = ''abc''" by code_simp
  have f: "py_int 4300 (indicator_field buffer_abc_indicator) = None" by code_simp
  from invalid_indicator_fails [of buffer_empty_indicator 4300] a b
  have "decode_decompressed 4300 buffer_empty_indicator = Inl InvalidIndicator" by blast
  moreover from invalid_indicator_fails [of buffer_abc_indicator 4300] c f
  have "decode_decompressed 4300 buffer_abc_indicator = Inl InvalidIndicator" by blast
  ultimately show ?thesis using a b c e f by blast
qed

section \<open>Determinism\<close>

text \<open>
  Claim C9, as stated: two invocations on identical bytes give identical results, with
  no dependence on external or mutable state.  The decoder calls \<^verbatim>\<open>int\<close> on the
  indicator, and \<^verbatim>\<open>int\<close> reads the interpreter's digit limit
  (\<^verbatim>\<open>sys.set_int_max_str_digits\<close>): the buffer whose indicator is 701 zeros is
  refused under a limit of 650 and decoded when the limit is off.
\<close>

theorem decode_depends_on_digit_limit:
  "decode_decompressed 650 buffer_long_indicator = Inl InvalidIndicator
   \<and> decode_decompressed 0 buffer_long_indicator = Inr (record_of buffer_long_indicator 0)
   \<and> decode_decompressed 650 buffer_long_indicator \<noteq> decode_decompressed 0 buffer_long_indicator"
proof -
  from long_indicator_count long_indicator_650
  have a: "decode_decompressed 650 buffer_long_indicator = Inl InvalidIndicator"
    by (rule decode_decompressed_bad_indicator)
  from long_indicator_count long_indicator_0
  have b: "decode_decompressed 0 buffer_long_indicator = Inr (record_of buffer_long_indicator 0)"
    by (rule decode_decompressed_Inr)
  from a b show ?thesis by simp
qed

text \<open>
  Claim C9, amended.  The result of decoding is a function of the bytes and of the
  interpreter's digit limit alone.  For every input buffer, two invocations on
  identical bytes under any two settings of the limit that the digits of the
  indicator field do not exceed (the limit is off, or the field has at most 640
  digits, or at most as many as the limit) give identical results: the same error,
  or the same fields with the same values.
\<close>

theorem decode_same_result_below_digit_limit:
  assumes "limit_not_reached lim (indicator_field d)"
    and "limit_not_reached lim' (indicator_field d)"
  shows "decode_decompressed lim d = decode_decompressed lim' d"
proof -
  from assms have "py_int lim (indicator_field d) = py_int lim' (indicator_field d)"
    by (simp add: py_int_limit)
  then show ?thesis by (rule decode_decompressed_limit)
qed

theorem decode_same_result_below_digit_limit_witness:
  "limit_not_reached 650 (indicator_field buffer_valid_both)
   \<and> limit_not_reached 0 (indicator_field buffer_valid_both)
   \<and> decode_decompressed 650 buffer_valid_both = decode_decompressed 0 buffer_valid_both
   \<and> limit_not_reached 4300 (indicator_field buffer_long_indicator)
   \<and> decode_decompressed 4300 buffer_long_indicator = decode_decompressed 0 buffer_long_indicator"
proof -
  have a: "limit_not_reached 650 (indicator_field buffer_valid_both)" by code_simp
  have b: "limit_not_reached 0 (indicator_field buffer_valid_both)" by code_simp
  have c: "limit_not_reached 4300 (indicator_field buffer_long_indicator)"
    by (simp add: limit_not_reached_def indicator_field_long digit_count_zeros)
  have e: "limit_not_reached 0 (indicator_field buffer_long_indicator)"
    by (simp add: limit_not_reached_def)
  from decode_same_result_below_digit_limit [OF a b]
    decode_same_result_below_digit_limit [OF c e] a b c
  show ?thesis by blast
qed

section \<open>The tail of a valid container\<close>

text \<open>
  Claim C5.  For every valid container (16 delimiters, a parsable indicator, and room
  for the declared tail after the 16th delimiter), the photo field is the base64
  text, in the standard alphabet and without line breaks, of exactly the bytes from
  the offset after the 16th delimiter up to and excluding \<open>tail_start\<close>, where
  \<open>tail_start\<close> is the length of the buffer minus 256 plus the extra of 0, 32 or 64
  bytes the indicator declares.
\<close>

theorem photo_of_valid_container:
  assumes "16 \<le> count_list d delimiter" and "py_int lim (indicator_field d) = Some ind"
    and "int (last (delimiter_positions d)) + 1 \<le> tail_start d ind"
  shows "\<exists>r. decode_decompressed lim d = Inr r
     \<and> r ''photo'' = Some (b64encode
          (map ((!) d) [last (delimiter_positions d) + 1 ..< nat (tail_start d ind)]))
     \<and> tail_start d ind
          = int (length d) - (256 + (if ind = 3 then 64 else if ind = 1 \<or> ind = 2 then 32 else 0))
     \<and> nat (tail_start d ind) \<le> length d
     \<and> set (the (r ''photo'')) \<subseteq> set b64_alphabet \<union> {CHR ''=''}
     \<and> CHR 0x0A \<notin> set (the (r ''photo''))"
proof -
  let ?p = "last (delimiter_positions d)"
  let ?ts = "tail_start d ind"
  have ts: "?ts = int (length d) - (256 + (if ind = 3 then 64 else if ind = 1 \<or> ind = 2 then 32 else 0))"
    by (simp add: tail_start_def tail_length_cases)
  then have le: "nat ?ts \<le> length d" by auto
  from assms(3) have a: "?p + 1 \<le> nat ?ts" and nn: "int (nat ?ts) = ?ts" by auto
  have "py_slice d (int (?p + 1)) (int (nat ?ts)) = map ((!) d) [?p + 1 ..< nat ?ts]"
    using a le by (rule slice_as_range)
  then have "photo_bytes d (delimiter_positions d) ind = map ((!) d) [?p + 1 ..< nat ?ts]"
    unfolding photo_bytes_def by (simp only: nn of_nat_add of_nat_1)
  then have ph: "record_of d ind ''photo'' = Some (b64encode (map ((!) d) [?p + 1 ..< nat ?ts]))"
    by (simp add: record_of_photo)
  have "set (the (record_of d ind ''photo'')) \<subseteq> set b64_alphabet \<union> {CHR ''=''}"
    unfolding ph option.sel by (rule set_b64encode)
  moreover have "CHR 0x0A \<notin> set (the (record_of d ind ''photo''))"
    unfolding ph option.sel by (rule b64encode_no_newline)
  ultimately show ?thesis
    using decode_decompressed_Inr [OF assms(1,2)] ph ts le by blast
qed

theorem photo_of_valid_container_witness:
  "16 \<le> count_list buffer_valid_photo delimiter
   \<and> py_int 4300 (indicator_field buffer_valid_photo) = Some 0
   \<and> int (last (delimiter_positions buffer_valid_photo)) + 1 \<le> tail_start buffer_valid_photo 0
   \<and> (\<exists>r. decode_decompressed 4300 buffer_valid_photo = Inr r \<and> r ''photo'' = Some ''AQIDBA=='')"
proof -
  have a: "16 \<le> count_list buffer_valid_photo delimiter" by code_simp
  have b: "py_int 4300 (indicator_field buffer_valid_photo) = Some 0" by code_simp
  have c: "int (last (delimiter_positions buffer_valid_photo)) + 1 \<le> tail_start buffer_valid_photo 0"
    by code_simp
  have e: "b64encode (map ((!) buffer_valid_photo)
      [last (delimiter_positions buffer_valid_photo) + 1 ..< nat (tail_start buffer_valid_photo 0)])
      = ''AQIDBA==''" by code_simp
  from photo_of_valid_container [OF a b c] show ?thesis
    unfolding e using a b c by blast
qed

text \<open>
  Claim C3.  For every valid container the output has the key \<open>mobile\<close> exactly when
  the indicator is 1 or 3 and the key \<open>email\<close> exactly when it is 2 or 3.  When
  present, \<open>mobile\<close> is the lowercase hexadecimal text, 64 characters, of the reversed
  32-byte block at \<open>tail_start\<close>, and \<open>email\<close> the same for the 32-byte block at
  \<open>tail_start + 32\<close> when the indicator is 3 and at \<open>tail_start\<close> when it is 2.
\<close>

theorem contacts_of_valid_container:
  assumes "16 \<le> count_list d delimiter" and "py_int lim (indicator_field d) = Some ind"
    and "int (last (delimiter_positions d)) + 1 \<le> tail_start d ind"
  shows "\<exists>r. decode_decompressed lim d = Inr r
     \<and> (r ''mobile'' \<noteq> None \<longleftrightarrow> ind = 1 \<or> ind = 3)
     \<and> (r ''email'' \<noteq> None \<longleftrightarrow> ind = 2 \<or> ind = 3)
     \<and> (ind = 1 \<or> ind = 3 \<longrightarrow>
          r ''mobile'' = Some (bytes_hex (rev (take 32 (drop (nat (tail_start d ind)) d))))
          \<and> length (take 32 (drop (nat (tail_start d ind)) d)) = 32
          \<and> length (the (r ''mobile'')) = 64
          \<and> set (the (r ''mobile'')) \<subseteq> set hex_digits)
     \<and> (ind = 2 \<or> ind = 3 \<longrightarrow>
          r ''email'' = Some (bytes_hex (rev
             (take 32 (drop (nat (tail_start d ind) + (if ind = 3 then 32 else 0)) d))))
          \<and> length (take 32 (drop (nat (tail_start d ind) + (if ind = 3 then 32 else 0)) d)) = 32
          \<and> length (the (r ''email'')) = 64
          \<and> set (the (r ''email'')) \<subseteq> set hex_digits)"
proof -
  let ?ts = "tail_start d ind"
  let ?r = "record_of d ind"
  from assms(3) have nn: "0 \<le> ?ts" by auto
  have ts: "?ts = int (length d) - tail_length ind" by (simp add: tail_start_def)
  have mob: "?r ''mobile'' = Some (bytes_hex (rev (take 32 (drop (nat ?ts) d))))
      \<and> length (take 32 (drop (nat ?ts) d)) = 32
      \<and> length (the (?r ''mobile'')) = 64
      \<and> set (the (?r ''mobile'')) \<subseteq> set hex_digits" if i: "ind = 1 \<or> ind = 3"
  proof -
    from i ts have fit: "?ts + 32 \<le> int (length d)" by (auto simp: tail_length_cases)
    with nn have s: "py_slice d ?ts (?ts + 32) = take 32 (drop (nat ?ts) d)"
      by (intro contact_slice_32) auto
    from fit nn have l: "length (take 32 (drop (nat ?ts) d)) = 32" by auto
    then have ne: "take 32 (drop (nat ?ts) d) \<noteq> []" by auto
    from i have m: "?r ''mobile'' = Some (bytes_hex (rev (take 32 (drop (nat ?ts) d))))"
      using ne by (simp add: record_of_mobile mobile_cases s truthy_Some_hex)
    show ?thesis
      unfolding m option.sel using l set_bytes_hex by (simp add: length_bytes_hex)
  qed
  have em: "?r ''email'' = Some (bytes_hex (rev
             (take 32 (drop (nat ?ts + (if ind = 3 then 32 else 0)) d))))
      \<and> length (take 32 (drop (nat ?ts + (if ind = 3 then 32 else 0)) d)) = 32
      \<and> length (the (?r ''email'')) = 64
      \<and> set (the (?r ''email'')) \<subseteq> set hex_digits" if i: "ind = 2 \<or> ind = 3"
  proof -
    let ?b = "take 32 (drop (nat ?ts + (if ind = 3 then 32 else 0)) d)"
    have l: "length ?b = 32"
      using i ts nn by (auto simp: tail_length_cases)
    have e: "email d ind = Some (bytes_hex (rev ?b))"
    proof (cases "ind = 3")
      case True
      with ts have fit: "?ts + 64 \<le> int (length d)" by (simp add: tail_length_cases)
      from nn fit have "py_slice d (?ts + 32) (?ts + 64) = take 32 (drop (nat (?ts + 32)) d)"
        by (intro contact_slice_32) auto
      moreover from nn have "nat (?ts + 32) = nat ?ts + 32" by auto
      ultimately show ?thesis
        using True by (simp add: email_cases)
    next
      case False
      with i have i2: "ind = 2" by simp
      with ts have fit: "?ts + 32 \<le> int (length d)" by (simp add: tail_length_cases)
      from nn fit have "py_slice d ?ts (?ts + 32) = take 32 (drop (nat ?ts) d)"
        by (intro contact_slice_32) auto
      then show ?thesis
        using i2 by (simp add: email_cases)
    qed
    from l have ne: "?b \<noteq> []" by auto
    have m: "?r ''email'' = Some (bytes_hex (rev ?b))"
      using ne by (simp only: record_of_email e truthy_Some_hex if_True simp_thms)
    show ?thesis
      unfolding m option.sel using l set_bytes_hex by (simp add: length_bytes_hex)
  qed
  have nomob: "?r ''mobile'' = None" if "\<not> (ind = 1 \<or> ind = 3)"
    using that by (simp add: record_of_mobile mobile_cases truthy_def)
  have noem: "?r ''email'' = None" if "\<not> (ind = 2 \<or> ind = 3)"
    using that by (simp add: record_of_email email_cases truthy_def)
  have "(?r ''mobile'' \<noteq> None \<longleftrightarrow> ind = 1 \<or> ind = 3)"
  proof (cases "ind = 1 \<or> ind = 3")
    case True
    from mob [OF True] have "?r ''mobile'' \<noteq> None" by simp
    with True show ?thesis by simp
  next
    case False
    with nomob [OF False] show ?thesis by simp
  qed
  moreover have "(?r ''email'' \<noteq> None \<longleftrightarrow> ind = 2 \<or> ind = 3)"
  proof (cases "ind = 2 \<or> ind = 3")
    case True
    from em [OF True] have "?r ''email'' \<noteq> None" by simp
    with True show ?thesis by simp
  next
    case False
    with noem [OF False] show ?thesis by simp
  qed
  ultimately show ?thesis
    using decode_decompressed_Inr [OF assms(1,2)] mob em by blast
qed

theorem contacts_of_valid_container_witness:
  "16 \<le> count_list buffer_valid_both delimiter
   \<and> py_int 4300 (indicator_field buffer_valid_both) = Some 3
   \<and> int (last (delimiter_positions buffer_valid_both)) + 1 \<le> tail_start buffer_valid_both 3
   \<and> (\<exists>r. decode_decompressed 4300 buffer_valid_both = Inr r
        \<and> r ''mobile'' = Some ''201f1e1d1c1b1a191817161514131211100f0e0d0c0b0a090807060504030201''
        \<and> r ''email'' = Some ''84838281807f7e7d7c7b7a797877767574737271706f6e6d6c6b6a6968676665'')"
proof -
  have a: "16 \<le> count_list buffer_valid_both delimiter" by code_simp
  have b: "py_int 4300 (indicator_field buffer_valid_both) = Some 3" by code_simp
  have c: "int (last (delimiter_positions buffer_valid_both)) + 1 \<le> tail_start buffer_valid_both 3"
    by code_simp
  have e: "bytes_hex (rev (take 32 (drop (nat (tail_start buffer_valid_both 3)) buffer_valid_both)))
      = ''201f1e1d1c1b1a191817161514131211100f0e0d0c0b0a090807060504030201''" by code_simp
  have f: "bytes_hex (rev (take 32 (drop (nat (tail_start buffer_valid_both 3) + (if (3::int) = 3 then 32 else 0))
      buffer_valid_both)))
      = ''84838281807f7e7d7c7b7a797877767574737271706f6e6d6c6b6a6968676665''" by code_simp
  from contacts_of_valid_container [OF a b c] show ?thesis
    unfolding e f using a b c by auto
qed

section \<open>Buffers shorter than the declared tail\<close>

text \<open>
  Claim C7.  For every input buffer with at least 16 bytes equal to 255 whose first
  field parses as an integer, decoding returns a record and raises no error, whatever
  the length of the buffer: the photo is the base64 text of the Python slice from the
  offset after the 16th delimiter to \<open>len - tail_length\<close>, and each contact value is
  the hexadecimal text of the reversed Python slice of the 32 offsets from there (the
  next 32 for \<open>email\<close> with indicator 3), present when the indicator declares it and
  the slice is not empty.  The slices are clamped, so they may be empty or, for a
  negative bound, come from the front of the buffer: in the 129-byte buffer below
  \<open>mobile\<close> is the text of the first two bytes.
\<close>

theorem decode_returns_record:
  assumes "16 \<le> count_list d delimiter" and "py_int lim (indicator_field d) = Some ind"
  shows "\<exists>r. decode_decompressed lim d = Inr r
     \<and> r ''indicator'' = Some (indicator_field d)
     \<and> r ''photo'' = Some (b64encode
          (py_slice d (int (last (delimiter_positions d)) + 1) (int (length d) - tail_length ind)))
     \<and> r ''mobile'' =
          (if (ind = 1 \<or> ind = 3)
              \<and> py_slice d (int (length d) - tail_length ind)
                    (int (length d) - tail_length ind + 32) \<noteq> []
           then Some (bytes_hex (rev (py_slice d (int (length d) - tail_length ind)
                                                  (int (length d) - tail_length ind + 32))))
           else None)
     \<and> r ''email'' =
          (if ind = 3 \<and> py_slice d (int (length d) - tail_length ind + 32)
                            (int (length d) - tail_length ind + 64) \<noteq> []
           then Some (bytes_hex (rev (py_slice d (int (length d) - tail_length ind + 32)
                                                  (int (length d) - tail_length ind + 64))))
           else if ind = 2 \<and> py_slice d (int (length d) - tail_length ind)
                                 (int (length d) - tail_length ind + 32) \<noteq> []
           then Some (bytes_hex (rev (py_slice d (int (length d) - tail_length ind)
                                                  (int (length d) - tail_length ind + 32))))
           else None)"
proof -
  have k: "''indicator'' \<in> set keys" by (simp add: keys_def)
  have "record_of d ind ''indicator'' = Some (indicator_field d)"
    by (simp only: record_of_key [OF k] text_data_indicator_field [OF assms(1)])
  moreover have "record_of d ind ''photo'' = Some (b64encode
      (py_slice d (int (last (delimiter_positions d)) + 1) (int (length d) - tail_length ind)))"
    by (simp add: record_of_photo photo_bytes_def tail_start_def)
  moreover have "record_of d ind ''mobile'' =
          (if (ind = 1 \<or> ind = 3)
              \<and> py_slice d (int (length d) - tail_length ind)
                    (int (length d) - tail_length ind + 32) \<noteq> []
           then Some (bytes_hex (rev (py_slice d (int (length d) - tail_length ind)
                                                  (int (length d) - tail_length ind + 32))))
           else None)"
    by (simp add: record_of_mobile mobile_cases tail_start_def truthy_def bytes_hex_Nil_iff)
  moreover have "record_of d ind ''email'' =
          (if ind = 3 \<and> py_slice d (int (length d) - tail_length ind + 32)
                            (int (length d) - tail_length ind + 64) \<noteq> []
           then Some (bytes_hex (rev (py_slice d (int (length d) - tail_length ind + 32)
                                                  (int (length d) - tail_length ind + 64))))
           else if ind = 2 \<and> py_slice d (int (length d) - tail_length ind)
                                 (int (length d) - tail_length ind + 32) \<noteq> []
           then Some (bytes_hex (rev (py_slice d (int (length d) - tail_length ind)
                                                  (int (length d) - tail_length ind + 32))))
           else None)"
    by (simp add: record_of_email email_cases tail_start_def truthy_def bytes_hex_Nil_iff)
  ultimately show ?thesis
    using decode_decompressed_Inr [OF assms] by blast
qed

theorem decode_returns_record_witness:
  "16 \<le> count_list buffer_overlap delimiter
   \<and> py_int 4300 (indicator_field buffer_overlap) = Some 1
   \<and> int (length buffer_overlap) < tail_length 1
   \<and> py_slice buffer_overlap (int (length buffer_overlap) - tail_length 1)
        (int (length buffer_overlap) - tail_length 1 + 32) = [0x31, 0xFF]
   \<and> (\<exists>r. decode_decompressed 4300 buffer_overlap = Inr r
          \<and> r ''indicator'' = Some ''1'' \<and> r ''photo'' = Some []
          \<and> r ''mobile'' = Some ''ff31''
          \<and> r ''email'' = None)"
proof -
  have a: "16 \<le> count_list buffer_overlap delimiter" by code_simp
  have b: "py_int 4300 (indicator_field buffer_overlap) = Some 1" by code_simp
  have c: "int (length buffer_overlap) < tail_length 1" by code_simp
  have e: "indicator_field buffer_overlap = ''1''" by code_simp
  have f: "b64encode (py_slice buffer_overlap (int (last (delimiter_positions buffer_overlap)) + 1)
             (int (length buffer_overlap) - tail_length 1)) = []" by code_simp
  have s: "py_slice buffer_overlap (int (length buffer_overlap) - tail_length 1)
             (int (length buffer_overlap) - tail_length 1 + 32) = [0x31, 0xFF]" by code_simp
  have g: "bytes_hex (rev [0x31, 0xFF]) = ''ff31''" by code_simp
  from decode_returns_record [OF a b] obtain r
    where r: "decode_decompressed 4300 buffer_overlap = Inr r"
      and i: "r ''indicator'' = Some (indicator_field buffer_overlap)"
      and p: "r ''photo'' = Some (b64encode (py_slice buffer_overlap
                (int (last (delimiter_positions buffer_overlap)) + 1)
                (int (length buffer_overlap) - tail_length 1)))"
      and m: "r ''mobile'' =
          (if ((1::int) = 1 \<or> (1::int) = 3)
              \<and> py_slice buffer_overlap (int (length buffer_overlap) - tail_length 1)
                    (int (length buffer_overlap) - tail_length 1 + 32) \<noteq> []
           then Some (bytes_hex (rev (py_slice buffer_overlap (int (length buffer_overlap) - tail_length 1)
                                                  (int (length buffer_overlap) - tail_length 1 + 32))))
           else None)"
      and em: "r ''email'' =
          (if (1::int) = 3 \<and> py_slice buffer_overlap (int (length buffer_overlap) - tail_length 1 + 32)
                            (int (length buffer_overlap) - tail_length 1 + 64) \<noteq> []
           then Some (bytes_hex (rev (py_slice buffer_overlap (int (length buffer_overlap) - tail_length 1 + 32)
                                                  (int (length buffer_overlap) - tail_length 1 + 64))))
           else if (1::int) = 2 \<and> py_slice buffer_overlap (int (length buffer_overlap) - tail_length 1)
                                 (int (length buffer_overlap) - tail_length 1 + 32) \<noteq> []
           then Some (bytes_hex (rev (py_slice buffer_overlap (int (length buffer_overlap) - tail_length 1)
                                                  (int (length buffer_overlap) - tail_length 1 + 32))))
           else None)"
    by blast
  from em have "r ''email'' = None" by simp
  moreover from m have "r ''mobile'' = Some ''ff31''" unfolding s g by simp
  moreover from i e have "r ''indicator'' = Some ''1''" by simp
  moreover from p f have "r ''photo'' = Some []" by simp
  ultimately show ?thesis using a b c s r by blast
qed

text \<open>
  Claim C8.  The key \<open>mobile\<close> (\<open>email\<close>) is in the returned record exactly when the
  indicator declares the field and its contact slice is not empty: with an indicator
  of 1, 2 or 3 and an empty slice the key is absent.
\<close>

theorem empty_contact_slice_drops_key:
  assumes "decode_decompressed lim d = Inr r" and "py_int lim (indicator_field d) = Some ind"
  shows "(r ''mobile'' \<noteq> None \<longleftrightarrow>
            (ind = 1 \<or> ind = 3) \<and> py_slice d (tail_start d ind) (tail_start d ind + 32) \<noteq> [])
       \<and> (r ''email'' \<noteq> None \<longleftrightarrow>
            (ind = 3 \<and> py_slice d (tail_start d ind + 32) (tail_start d ind + 64) \<noteq> []
             \<or> ind = 2 \<and> py_slice d (tail_start d ind) (tail_start d ind + 32) \<noteq> []))"
proof -
  from assms have r: "r = record_of d ind"
    by (auto simp: decode_decompressed_Inr_iff)
  have "record_of d ind ''mobile'' \<noteq> None \<longleftrightarrow>
      (ind = 1 \<or> ind = 3) \<and> py_slice d (tail_start d ind) (tail_start d ind + 32) \<noteq> []"
    by (simp add: record_of_mobile mobile_cases truthy_def bytes_hex_Nil_iff)
  moreover have "record_of d ind ''email'' \<noteq> None \<longleftrightarrow>
      (ind = 3 \<and> py_slice d (tail_start d ind + 32) (tail_start d ind + 64) \<noteq> []
       \<or> ind = 2 \<and> py_slice d (tail_start d ind) (tail_start d ind + 32) \<noteq> [])"
    by (auto simp add: record_of_email email_cases truthy_def bytes_hex_Nil_iff)
  ultimately show ?thesis unfolding r by blast
qed

theorem empty_contact_slice_drops_key_witness:
  "decode_decompressed 4300 buffer_short_mobile = Inr (record_of buffer_short_mobile 1)
   \<and> py_int 4300 (indicator_field buffer_short_mobile) = Some 1
   \<and> py_slice buffer_short_mobile (tail_start buffer_short_mobile 1)
         (tail_start buffer_short_mobile 1 + 32) = []
   \<and> record_of buffer_short_mobile 1 ''mobile'' = None
   \<and> record_of buffer_short_mobile 1 ''email'' = None"
proof -
  have a: "16 \<le> count_list buffer_short_mobile delimiter" by code_simp
  have b: "py_int 4300 (indicator_field buffer_short_mobile) = Some 1" by code_simp
  have c: "py_slice buffer_short_mobile (tail_start buffer_short_mobile 1)
         (tail_start buffer_short_mobile 1 + 32) = []" by code_simp
  have r: "decode_decompressed 4300 buffer_short_mobile = Inr (record_of buffer_short_mobile 1)"
    using a b by (rule decode_decompressed_Inr)
  from empty_contact_slice_drops_key [OF r b] c
  have "record_of buffer_short_mobile 1 ''mobile'' = None"
    and "record_of buffer_short_mobile 1 ''email'' = None" by simp_all
  with r b c show ?thesis by blast
qed

text \<open>
  Claim C1, as stated: a buffer whose declared tail does not fit after the 16th
  delimiter is refused with a truncation error.  The decoder has no such check: the
  17-byte buffer with indicator \<open>0\<close> declares a tail of 256 bytes and is decoded.
\<close>

theorem short_buffer_is_not_refused:
  "16 \<le> count_list buffer_zero_indicator delimiter
   \<and> py_int 4300 (indicator_field buffer_zero_indicator) = Some 0
   \<and> int (length buffer_zero_indicator) < tail_length 0
   \<and> tail_start buffer_zero_indicator 0 \<le> int (last (delimiter_positions buffer_zero_indicator)) + 1
   \<and> \<not> isl (decode_decompressed 4300 buffer_zero_indicator)"
  by code_simp

text \<open>
  Claim C1, amended.  For every input buffer with 16 delimiters and a parsable
  indicator whose \<open>tail_start\<close> is at most the offset after the 16th delimiter,
  decoding returns a record.  Its photo is the base64 text of no bytes when
  \<open>tail_start\<close> is not negative; when it is negative the bound counts from the end,
  and the photo holds the bytes from the offset after the 16th delimiter up to and
  excluding offset \<open>2 * len - tail_length\<close>.
\<close>

theorem short_buffer_still_decodes:
  assumes "16 \<le> count_list d delimiter" and "py_int lim (indicator_field d) = Some ind"
    and "tail_start d ind \<le> int (last (delimiter_positions d)) + 1"
  shows "\<exists>r. decode_decompressed lim d = Inr r
     \<and> r ''photo'' = Some (b64encode
          (if 0 \<le> tail_start d ind then []
           else take (nat (2 * int (length d) - tail_length ind) - (last (delimiter_positions d) + 1))
                  (drop (last (delimiter_positions d) + 1) d)))"
proof -
  let ?p = "last (delimiter_positions d)"
  let ?ts = "tail_start d ind"
  have p: "?p < length d" using assms(1) by (rule last_delimiter_less)
  have "photo_bytes d (delimiter_positions d) ind =
      (if 0 \<le> ?ts then []
       else take (nat (2 * int (length d) - tail_length ind) - (?p + 1)) (drop (?p + 1) d))"
    using p assms(3) nat_int_add [of "last (delimiter_positions d)" 1]
    by (auto simp: photo_bytes_def py_slice_def slice_index_def Let_def tail_start_def)
  then show ?thesis
    using decode_decompressed_Inr [OF assms(1,2)] by (simp add: record_of_photo)
qed

theorem short_buffer_still_decodes_witness:
  "16 \<le> count_list buffer_short_mobile delimiter
   \<and> py_int 4300 (indicator_field buffer_short_mobile) = Some 1
   \<and> tail_start buffer_short_mobile 1 \<le> int (last (delimiter_positions buffer_short_mobile)) + 1
   \<and> (\<exists>r. decode_decompressed 4300 buffer_short_mobile = Inr r \<and> r ''photo'' = Some [])"
proof -
  have a: "16 \<le> count_list buffer_short_mobile delimiter" by code_simp
  have b: "py_int 4300 (indicator_field buffer_short_mobile) = Some 1" by code_simp
  have c: "tail_start buffer_short_mobile 1 \<le> int (last (delimiter_positions buffer_short_mobile)) + 1"
    by code_simp
  have e: "b64encode
          (if 0 \<le> tail_start buffer_short_mobile 1 then []
           else take (nat (2 * int (length buffer_short_mobile) - tail_length 1) - (last (delimiter_positions buffer_short_mobile) + 1))
                  (drop (last (delimiter_positions buffer_short_mobile) + 1) buffer_short_mobile)) = []"
    by code_simp
  from short_buffer_still_decodes [OF a b c] e a b c show ?thesis by auto
qed

section \<open>The text fields\<close>

text \<open>
  Claim C10.  In every successfully decoded record none of the 16 text fields holds
  the delimiter character, code point 255: the field number \<open>i\<close> is the text of the
  bytes at the offsets from its start (0, or one after the previous delimiter) up to
  and excluding the delimiter number \<open>i\<close>, and none of these bytes is 255.
\<close>

theorem text_fields_free_of_delimiter:
  assumes "decode_decompressed lim d = Inr r"
  shows "(\<forall>i<16. \<exists>v. r (keys ! i) = Some v
          \<and> v = map latin1_char (map ((!) d)
                  [field_start (delimiter_positions d) i ..< delimiter_positions d ! i])
          \<and> (\<forall>j. field_start (delimiter_positions d) i \<le> j \<and> j < delimiter_positions d ! i
                 \<longrightarrow> d ! j \<noteq> delimiter)
          \<and> CHR 0xFF \<notin> set v)
     \<and> (\<forall>k\<in>set keys. \<exists>v. r k = Some v \<and> CHR 0xFF \<notin> set v)"
proof -
  have fields: "\<forall>i<16. \<exists>v. r (keys ! i) = Some v
          \<and> v = map latin1_char (map ((!) d)
                  [field_start (delimiter_positions d) i ..< delimiter_positions d ! i])
          \<and> (\<forall>j. field_start (delimiter_positions d) i \<le> j \<and> j < delimiter_positions d ! i
                 \<longrightarrow> d ! j \<noteq> delimiter)
          \<and> CHR 0xFF \<notin> set v"
  proof (intro allI impI)
    fix i :: nat
    assume i: "i < 16"
    let ?ps = "delimiter_positions d"
    let ?a = "field_start ?ps i"
    let ?b = "?ps ! i"
    from assms obtain ind where c: "16 \<le> count_list d delimiter" and r: "r = record_of d ind"
      by (auto simp: decode_decompressed_Inr_iff)
    from c have l: "length ?ps = 16" by (simp add: length_delimiter_positions)
    note fr = field_range [OF c i]
    have "fields_from d 0 ?ps ! i = map latin1_char (py_slice d (int ?a) (int ?b))"
      using i l by (simp add: fields_from_nth field_start_def)
    also have "py_slice d (int ?a) (int ?b) = map ((!) d) [?a ..< ?b]"
      using fr(1,2) by (intro slice_as_range) auto
    finally have f: "fields_from d 0 ?ps ! i = map latin1_char (map ((!) d) [?a ..< ?b])" .
    from i have k: "keys ! i \<in> set keys" by (simp add: length_keys)
    have "r (keys ! i) = Some (fields_from d 0 ?ps ! i)"
      unfolding r using i l by (simp only: record_of_key [OF k] text_data_nth length_fields_from)
    with f have v: "r (keys ! i) = Some (map latin1_char (map ((!) d) [?a ..< ?b]))" by simp
    have "CHR 0xFF \<notin> set (map latin1_char (map ((!) d) [?a ..< ?b]))"
      using fr(3) latin1_char_delimiter by (auto simp: eq_commute [of "CHR 0xFF"])
    with v fr(3) show "\<exists>v. r (keys ! i) = Some v
            \<and> v = map latin1_char (map ((!) d) [?a ..< ?b])
            \<and> (\<forall>j. ?a \<le> j \<and> j < ?b \<longrightarrow> d ! j \<noteq> delimiter)
            \<and> CHR 0xFF \<notin> set v" by blast
  qed
  have "\<exists>v. r k = Some v \<and> CHR 0xFF \<notin> set v" if "k \<in> set keys" for k
  proof -
    from that obtain i where "i < 16" and "keys ! i = k"
      by (auto simp: in_set_conv_nth length_keys)
    with fields show ?thesis by blast
  qed
  with fields show ?thesis by blast
qed

theorem text_fields_free_of_delimiter_witness:
  "decode_decompressed 4300 buffer_valid_both = Inr (record_of buffer_valid_both 3)
   \<and> record_of buffer_valid_both 3 ''referenceId'' = Some ''AB''
   \<and> CHR 0xFF \<notin> set ''AB''"
proof -
  have a: "16 \<le> count_list buffer_valid_both delimiter" by code_simp
  have b: "py_int 4300 (indicator_field buffer_valid_both) = Some 3" by code_simp
  have r: "decode_decompressed 4300 buffer_valid_both = Inr (record_of buffer_valid_both 3)"
    using a b by (rule decode_decompressed_Inr)
  have k: "keys ! 1 = ''referenceId''" by (simp add: keys_def)
  have v: "map latin1_char (map ((!) buffer_valid_both)
      [field_start (delimiter_positions buffer_valid_both) 1
        ..< delimiter_positions buffer_valid_both ! 1]) = ''AB''" by code_simp
  from text_fields_free_of_delimiter [OF r, THEN conjunct1]
  have "\<exists>v. record_of buffer_valid_both 3 (keys ! 1) = Some v
      \<and> v = map latin1_char (map ((!) buffer_valid_both)
            [field_start (delimiter_positions buffer_valid_both) 1
              ..< delimiter_positions buffer_valid_both ! 1])
      \<and> CHR 0xFF \<notin> set v"
    by simp
  then have "record_of buffer_valid_both 3 ''referenceId'' = Some ''AB'' \<and> CHR 0xFF \<notin> set ''AB''"
    unfolding k v by blast
  with r show ?thesis by blast
qed

section \<open>Round trip\<close>

text \<open>
  Claim C2, as stated: a buffer built from 16 delimiter-terminated texts, a photo blob,
  a 256-byte signature and then the contact blocks decodes to its inputs.  The decoder
  reads the contact blocks at \<open>tail_start\<close>, before the last 256 bytes: with the
  signature first, \<open>mobile\<close> is the text of the first 32 signature bytes, here zeros,
  and not of the block of ones.
\<close>

theorem roundtrip_signature_first_fails:
  "field_of (decode_decompressed 4300
       (container_signature_first example_texts [] (replicate 256 0) 1 (replicate 32 1) []))
     ''mobile''
   \<noteq> Some (bytes_hex (rev (replicate 32 1)))
   \<and> field_of (decode_decompressed 4300
       (container_signature_first example_texts [] (replicate 256 0) 1 (replicate 32 1) []))
     ''mobile''
   = Some ''0000000000000000000000000000000000000000000000000000000000000000''
   \<and> bytes_hex (rev (replicate 32 1))
   = ''0101010101010101010101010101010101010101010101010101010101010101''
   \<and> py_int 4300 (hd example_texts) = Some 1"
  by code_simp

text \<open>
  Claim C2, amended.  For every buffer built as 16 delimiter-terminated texts free of
  the character 255, the first of which parses to the indicator, followed by a photo
  blob, the 32-byte contact blocks the indicator declares (mobile, then email) and a
  256-byte signature, decoding reproduces every input: each text field is its text,
  the photo is the base64 text of the blob, and each declared contact field is the
  hexadecimal text of its reversed block.
\<close>

theorem roundtrip_contacts_first:
  assumes "length texts = 16" and "\<forall>t\<in>set texts. CHR 0xFF \<notin> set t"
    and "py_int lim (hd texts) = Some ind"
    and "length signature = 256" and "length mobile_block = 32" and "length email_block = 32"
  shows "\<exists>r. decode_decompressed lim
            (container_contacts_first texts photo signature ind mobile_block email_block) = Inr r
     \<and> (\<forall>i<16. r (keys ! i) = Some (texts ! i))
     \<and> r ''photo'' = Some (b64encode photo)
     \<and> r ''mobile'' = (if ind = 1 \<or> ind = 3 then Some (bytes_hex (rev mobile_block)) else None)
     \<and> r ''email'' = (if ind = 2 \<or> ind = 3 then Some (bytes_hex (rev email_block)) else None)"
proof -
  let ?C = "contact_blocks ind mobile_block email_block"
  let ?segs = "map encode_latin1 texts"
  let ?T = "concat (map (\<lambda>s. s @ [delimiter]) ?segs)"
  let ?d = "container_contacts_first texts photo signature ind mobile_block email_block"
  have T: "text_block texts = ?T" by (simp add: text_block_def comp_def)
  have d: "?d = ?T @ photo @ ?C @ signature"
    by (simp add: container_contacts_first_def T)
  from assms(1) have ne: "?segs \<noteq> []" by auto
  from assms(2) have nd: "\<forall>s\<in>set ?segs. delimiter \<notin> set s"
    by (auto simp: encode_latin1_no_delimiter)
  have ps: "delimiter_positions ?d = segment_ends 0 ?segs"
    unfolding delimiter_positions_def d
    using scan_segments [OF nd ne, of "[]" "photo @ ?C @ signature" 0] assms(1) by simp
  have "length (segment_ends i segs) = length segs" for i segs
    by (induction segs arbitrary: i) auto
  with ps assms(1) have l: "length (delimiter_positions ?d) = 16" by simp
  then have c: "16 \<le> count_list ?d delimiter"
    using length_delimiter_positions [of ?d] by simp
  have "fields_from ([] @ ?T @ (photo @ ?C @ signature)) (length ([] :: byte list))
      (segment_ends (length ([] :: byte list)) ?segs) = map (map latin1_char) ?segs"
    by (rule fields_from_segments)
  then have fs: "fields_from ?d 0 (delimiter_positions ?d) = texts"
    unfolding ps by (simp add: d comp_def decode_encode_latin1)
  from l have "delimiter_positions ?d \<noteq> []" by auto
  then have "hd (fields_from ?d 0 (delimiter_positions ?d)) = indicator_field ?d"
    by (rule first_field)
  with fs have "indicator_field ?d = hd texts" by simp
  with assms(3) have pi: "py_int lim (indicator_field ?d) = Some ind" by simp
  let ?r = "record_of ?d ind"
  have r: "decode_decompressed lim ?d = Inr ?r" using c pi by (rule decode_decompressed_Inr)
  have fld: "\<forall>i<16. record_of ?d ind (keys ! i) = Some (texts ! i)"
  proof (intro allI impI)
    fix i :: nat
    assume i: "i < 16"
    then have k: "keys ! i \<in> set keys" by (simp add: length_keys)
    show "?r (keys ! i) = Some (texts ! i)"
      using i assms(1) by (simp only: record_of_key [OF k] fs text_data_nth)
  qed
  have lC: "int (length ?C) = tail_extra ind"
    using assms(5,6) by (rule length_contact_blocks)
  have lp: "last (delimiter_positions ?d) + 1 = length ?T"
    using last_segment_ends [OF ne, of 0] by (simp add: ps)
  have ts: "tail_start ?d ind = int (length ?T + length photo)"
    using lC assms(4) by (simp add: tail_start_def tail_length_def d)
  from lp have lp': "int (last (delimiter_positions ?d)) + 1 = int (length ?T)" by linarith
  have "photo_bytes ?d (delimiter_positions ?d) ind
      = py_slice ?d (int (length ?T)) (int (length ?T + length photo))"
    by (simp only: photo_bytes_def ts lp')
  also have "\<dots> = photo"
    unfolding d by (rule py_slice_mid)
  finally have ph: "?r ''photo'' = Some (b64encode photo)" by (simp add: record_of_photo)
  have first32: "py_slice ?d (tail_start ?d ind) (tail_start ?d ind + 32) = b"
    if "?C = b @ rest" and "length b = 32" for b rest
  proof -
    have e: "?d = (?T @ photo) @ b @ (rest @ signature)"
      unfolding d using that(1) by simp
    have "py_slice ?d (int (length (?T @ photo))) (int (length (?T @ photo) + length b)) = b"
      unfolding e by (rule py_slice_mid)
    with that(2) show ?thesis by (simp add: ts)
  qed
  have mob: "?r ''mobile'' = (if ind = 1 \<or> ind = 3 then Some (bytes_hex (rev mobile_block)) else None)"
  proof (cases "ind = 1 \<or> ind = 3")
    case True
    then have "?C = mobile_block @ (if ind = 3 then email_block else [])"
      by (auto simp: contact_blocks_def)
    from first32 [OF this assms(5)] True assms(5) show ?thesis
      by (auto simp: record_of_mobile mobile_cases truthy_Some_hex)
  next
    case False
    then show ?thesis by (simp add: record_of_mobile mobile_cases truthy_def)
  qed
  have em: "?r ''email'' = (if ind = 2 \<or> ind = 3 then Some (bytes_hex (rev email_block)) else None)"
  proof (cases "ind = 3")
    case True
    have e: "?d = (?T @ photo @ mobile_block) @ email_block @ signature"
      unfolding d using True by (simp add: contact_blocks_def)
    have "py_slice ?d (int (length (?T @ photo @ mobile_block)))
        (int (length (?T @ photo @ mobile_block) + length email_block)) = email_block"
      unfolding e by (rule py_slice_mid)
    then have "py_slice ?d (tail_start ?d ind + 32) (tail_start ?d ind + 64) = email_block"
      using assms(5,6) by (simp add: ts add.assoc)
    with True assms(6) show ?thesis
      by (auto simp: record_of_email email_cases truthy_Some_hex)
  next
    case n3: False
    show ?thesis
    proof (cases "ind = 2")
      case True
      then have "?C = email_block @ []" by (simp add: contact_blocks_def)
      from first32 [OF this assms(6)] True assms(6) show ?thesis
        by (auto simp: record_of_email email_cases truthy_Some_hex)
    next
      case False
      with n3 show ?thesis by (simp add: record_of_email email_cases truthy_def)
    qed
  qed
  from r fld ph mob em show ?thesis by blast
qed

theorem roundtrip_contacts_first_witness:
  "length roundtrip_texts = 16
   \<and> CHR 0xFF \<notin> set (concat roundtrip_texts)
   \<and> py_int 4300 (hd roundtrip_texts) = Some 3
   \<and> length (replicate 256 (0 :: byte)) = 256
   \<and> length roundtrip_mobile = 32 \<and> length roundtrip_email = 32
   \<and> (\<exists>r. decode_decompressed 4300
            (container_contacts_first roundtrip_texts roundtrip_photo (replicate 256 0) 3
               roundtrip_mobile roundtrip_email) = Inr r
        \<and> r ''name'' = Some ''Name One''
        \<and> r ''photo'' = Some ''AQIDBAUGBwgJCg==''
        \<and> r ''mobile'' = Some ''201f1e1d1c1b1a191817161514131211100f0e0d0c0b0a090807060504030201''
        \<and> r ''email'' = Some ''84838281807f7e7d7c7b7a797877767574737271706f6e6d6c6b6a6968676665'')"
proof -
  have a: "length roundtrip_texts = 16" by code_simp
  have b': "CHR 0xFF \<notin> set (concat roundtrip_texts)" by code_simp
  then have b: "\<forall>t\<in>set roundtrip_texts. CHR 0xFF \<notin> set t" by auto
  have c: "py_int 4300 (hd roundtrip_texts) = Some 3" by code_simp
  have e: "length (replicate 256 (0 :: byte)) = 256" by simp
  have f: "length roundtrip_mobile = 32" by code_simp
  have g: "length roundtrip_email = 32" by code_simp
  have k: "keys ! 2 = ''name''" by (simp add: keys_def)
  have t: "roundtrip_texts ! 2 = ''Name One''" by code_simp
  have p: "b64encode roundtrip_photo = ''AQIDBAUGBwgJCg==''" by code_simp
  have m: "bytes_hex (rev roundtrip_mobile)
      = ''201f1e1d1c1b1a191817161514131211100f0e0d0c0b0a090807060504030201''" by code_simp
  have n: "bytes_hex (rev roundtrip_email)
      = ''84838281807f7e7d7c7b7a797877767574737271706f6e6d6c6b6a6968676665''" by code_simp
  from roundtrip_contacts_first [OF a b c e f g, of roundtrip_photo] obtain r
    where r: "decode_decompressed 4300
            (container_contacts_first roundtrip_texts roundtrip_photo (replicate 256 0) 3
               roundtrip_mobile roundtrip_email) = Inr r"
      and fl: "\<forall>i<16. r (keys ! i) = Some (roundtrip_texts ! i)"
      and ph: "r ''photo'' = Some (b64encode roundtrip_photo)"
      and mo: "r ''mobile'' = Some (bytes_hex (rev roundtrip_mobile))"
      and em: "r ''email'' = Some (bytes_hex (rev roundtrip_email))"
    by auto
  from fl have "r (keys ! 2) = Some (roundtrip_texts ! 2)" by simp
  then have "r ''name'' = Some ''Name One''" by (simp only: k t)
  with r ph mo em show ?thesis
    unfolding p m n using a b' c e f g by blast
qed

end
